theory Spec2Isabelle
  imports Main "HOL-Library.Word" "HOL-Library.Sublist" "HOL-Library.Multiset"
begin

section \<open>Data model of package warcraftlogs\<close>

text \<open>
  The structs of the client package. Go's \<^verbatim>\<open>int64\<close> timestamps are only compared and
  copied by the code under study, so they are integers; the one place where a time
  difference is computed (\<^verbatim>\<open>time.Since\<close>) writes the saturation of
  \<^verbatim>\<open>time.Duration\<close> out. The leaderboard counter \<^verbatim>\<open>PlayerTop.Value\<close> is incremented,
  so it is a 64-bit word read as a signed number.
\<close>

record Difficulty =
  Difficulty_Name :: string
  Difficulty_Sizes :: "int list"

record Zone =
  Zone_Name :: string
  Zone_Difficulties :: "Difficulty list"

record Owner =
  Owner_Name :: string

record Report =
  Code :: string
  Title :: string
  StartTime :: int
  EndTime :: int
  Report_Owner :: Owner
  Report_Zone :: Zone

section \<open>The raid filter (watcher.deleteNonRaid)\<close>

text \<open>
  \<^verbatim>\<open>slices.DeleteFunc(s, del)\<close> removes the elements for which \<^verbatim>\<open>del\<close> holds and keeps
  the others in their order.
\<close>

definition DeleteFunc :: "'a list \<Rightarrow> ('a \<Rightarrow> bool) \<Rightarrow> 'a list" where
  "DeleteFunc s del = filter (\<lambda>x. \<not> del x) s"

text \<open>
  The closure handed to \<^verbatim>\<open>DeleteFunc\<close>: a loop over the zone's difficulties that
  returns false at the first Mythic entry with the single size 20, and true when the
  loop ends. The index \<^verbatim>\<open>Sizes[0]\<close> is read only behind \<^verbatim>\<open>len(Sizes) == 1\<close>.
\<close>

fun nonRaid :: "Difficulty list \<Rightarrow> bool" where
  "nonRaid [] = True"
| "nonRaid (difficulty # rest) =
     (if Difficulty_Name difficulty = ''Mythic'' \<and> length (Difficulty_Sizes difficulty) = 1
          \<and> Difficulty_Sizes difficulty ! 0 = 20
      then False else nonRaid rest)"

definition deleteNonRaid :: "Report list \<Rightarrow> Report list" where
  "deleteNonRaid reports =
     DeleteFunc reports (\<lambda>report. nonRaid (Zone_Difficulties (Report_Zone report)))"

text \<open>The filter as the specification words it.\<close>

definition mythic20 :: "Report \<Rightarrow> bool" where
  "mythic20 r =
     list_ex (\<lambda>d. Difficulty_Name d = ''Mythic'' \<and> Difficulty_Sizes d = [20])
       (Zone_Difficulties (Report_Zone r))"

section \<open>Errors\<close>

text \<open>
  Every error the client can return, and the one runtime panic the aggregation could raise
  (an index out of range). Errors of the HTTP and JSON libraries are opaque messages.
\<close>

datatype error =
    LibraryError string
  | OAuthFailed nat string
  | RefreshAfter401 error
  | GraphqlStatus nat string
  | GraphqlError string
  | EmptyData
  | EventsForFight int error
  | IndexOutOfRange

section \<open>Leaderboards (warcraftlogs.TopDeathsForReport)\<close>

record Fight =
  Fight_ID :: int
  Fight_EncounterID :: int
  Fight_Name :: string
  Fight_StartTime :: int
  Fight_EndTime :: int
  Fight_Difficulty :: int
  Fight_Kill :: bool

record Target =
  Target_Name :: string
  Target_Server :: string

record DeathEvent =
  Timestamp :: int
  Type :: string
  DeathEvent_Target :: Target

record PlayerTop =
  Name :: string
  Value :: "64 word"

record ReportDetails =
  TopDeaths :: "PlayerTop list"
  TopFirstDeaths :: "PlayerTop list"

text \<open>
  A counter is the slice of entries together with the map from a name to its index in
  the slice (\<^verbatim>\<open>totalDeaths\<close> with \<^verbatim>\<open>totalIdx\<close>, \<^verbatim>\<open>firstDeaths\<close> with \<^verbatim>\<open>firstIdx\<close>).
\<close>

type_synonym counter = "PlayerTop list \<times> (string \<rightharpoonup> nat)"

text \<open>
  The closure \<^verbatim>\<open>inc\<close>. \<^verbatim>\<open>(*list)[i].Value++\<close> wraps at 64 bits and panics when the
  index is out of range.
\<close>

definition inc :: "counter \<Rightarrow> string \<Rightarrow> error + counter" where
  "inc c name =
     (case c of (list, idx) \<Rightarrow>
        if name = [] then Inr (list, idx)
        else
          (case idx name of
             Some i \<Rightarrow>
               if i < length list
               then Inr (list[i := (list ! i)\<lparr>Value := Value (list ! i) + 1\<rparr>], idx)
               else Inl IndexOutOfRange
           | None \<Rightarrow>
               Inr (list @ [\<lparr>Name = name, Value = 1\<rparr>], idx(name \<mapsto> length list))))"

text \<open>
  The inner loop over one fight's events; the state is the two counters and
  \<^verbatim>\<open>firstTaken\<close>.
\<close>

fun events_loop ::
  "DeathEvent list \<Rightarrow> counter \<times> counter \<times> bool \<Rightarrow> error + (counter \<times> counter \<times> bool)" where
  "events_loop [] s = Inr s"
| "events_loop (ev # evs) (totalDeaths, firstDeaths, firstTaken) =
     (let name = Target_Name (DeathEvent_Target ev) in
      if name = [] then events_loop evs (totalDeaths, firstDeaths, firstTaken)
      else
        (case inc totalDeaths name of
           Inl e \<Rightarrow> Inl e
         | Inr totalDeaths' \<Rightarrow>
             if \<not> firstTaken
             then (case inc firstDeaths name of
                     Inl e \<Rightarrow> Inl e
                   | Inr firstDeaths' \<Rightarrow> events_loop evs (totalDeaths', firstDeaths', True))
             else events_loop evs (totalDeaths', firstDeaths, firstTaken)))"

text \<open>
  The outer loop over the fights. Each fight comes with what \<^verbatim>\<open>getDeathEvents\<close>
  returns when it is called for that fight; the first failing call ends the loop.
\<close>

fun fights_loop ::
  "(Fight \<times> (error + DeathEvent list)) list \<Rightarrow> counter \<times> counter \<Rightarrow> error + (counter \<times> counter)" where
  "fights_loop [] s = Inr s"
| "fights_loop ((f, r) # rest) (totalDeaths, firstDeaths) =
     (case r of
        Inl err \<Rightarrow> Inl (EventsForFight (Fight_ID f) err)
      | Inr events \<Rightarrow>
          (case events_loop events (totalDeaths, firstDeaths, False) of
             Inl e \<Rightarrow> Inl e
           | Inr (totalDeaths', firstDeaths', firstTaken) \<Rightarrow> fights_loop rest (totalDeaths', firstDeaths')))"

definition aggregate ::
  "(Fight \<times> (error + DeathEvent list)) list \<Rightarrow> error + (counter \<times> counter)" where
  "aggregate fights = fights_loop fights (([], Map.empty), ([], Map.empty))"

text \<open>
  \<^verbatim>\<open>sort.SliceStable(xs, less)\<close>: the stable sort by \<^verbatim>\<open>less\<close>, here as the insertion
  sort that moves an element in front of a later one only when it is strictly less.
\<close>

fun insert_stable :: "('a \<Rightarrow> 'a \<Rightarrow> bool) \<Rightarrow> 'a \<Rightarrow> 'a list \<Rightarrow> 'a list" where
  "insert_stable lt x [] = [x]"
| "insert_stable lt x (y # ys) =
     (if lt y x then y # insert_stable lt x ys else x # y # ys)"

definition SliceStable :: "('a \<Rightarrow> 'a \<Rightarrow> bool) \<Rightarrow> 'a list \<Rightarrow> 'a list" where
  "SliceStable lt xs = foldr (insert_stable lt) xs []"

text \<open>The comparison of the two sorts: \<^verbatim>\<open>a.Value > b.Value\<close> on signed 64-bit integers.\<close>

definition more_deaths :: "PlayerTop \<Rightarrow> PlayerTop \<Rightarrow> bool" where
  "more_deaths a b = (sint (Value b) < sint (Value a))"

definition topN :: nat where
  "topN = 5"

definition truncate_top :: "PlayerTop list \<Rightarrow> PlayerTop list" where
  "truncate_top xs = (if topN < length xs then take topN xs else xs)"

text \<open>
  \<^verbatim>\<open>TopDeathsForReport\<close>. Its argument is the result of \<^verbatim>\<open>GetBossFights\<close>, each
  fight paired with the result of its \<^verbatim>\<open>getDeathEvents\<close> call.
\<close>

definition TopDeathsForReport ::
  "error + (Fight \<times> (error + DeathEvent list)) list \<Rightarrow> error + ReportDetails" where
  "TopDeathsForReport bossFights =
     (case bossFights of
        Inl err \<Rightarrow> Inl err
      | Inr fights \<Rightarrow>
          if length fights = 0 then Inr \<lparr>TopDeaths = [], TopFirstDeaths = []\<rparr>
          else
            (case aggregate fights of
               Inl e \<Rightarrow> Inl e
             | Inr ((totalDeaths, totalIdx), (firstDeaths, firstIdx)) \<Rightarrow>
                 Inr \<lparr>TopDeaths = truncate_top (SliceStable more_deaths totalDeaths),
                      TopFirstDeaths = truncate_top (SliceStable more_deaths firstDeaths)\<rparr>))"

subsection \<open>What the leaderboards are compared with\<close>

text \<open>
  The names of a fight's events that count (the non-empty ones), in event order; the
  name that takes the fight's first death; the event lists of the fights.
\<close>

definition qualifying :: "DeathEvent list \<Rightarrow> string list" where
  "qualifying evs = filter (\<lambda>n. n \<noteq> []) (map (\<lambda>ev. Target_Name (DeathEvent_Target ev)) evs)"

definition first_death :: "DeathEvent list \<Rightarrow> string list" where
  "first_death evs = take 1 (qualifying evs)"

definition events_of :: "(Fight \<times> (error + DeathEvent list)) list \<Rightarrow> DeathEvent list list" where
  "events_of fights = map (\<lambda>(f, r). case r of Inl e \<Rightarrow> [] | Inr evs \<Rightarrow> evs) fights"

definition all_deaths :: "(Fight \<times> (error + DeathEvent list)) list \<Rightarrow> string list" where
  "all_deaths fights = concat (map qualifying (events_of fights))"

definition all_first_deaths :: "(Fight \<times> (error + DeathEvent list)) list \<Rightarrow> string list" where
  "all_first_deaths fights = concat (map first_death (events_of fights))"

text \<open>The distinct names of a list in the order of their first occurrence.\<close>

fun first_seen :: "string list \<Rightarrow> string list" where
  "first_seen [] = []"
| "first_seen (n # ns) = n # filter (\<lambda>m. m \<noteq> n) (first_seen ns)"

text \<open>
  The counter a stream of names should produce: one entry per distinct name, in
  first-seen order, holding the number of occurrences (as a 64-bit counter).
\<close>

definition tally :: "string list \<Rightarrow> PlayerTop list" where
  "tally ns = map (\<lambda>n. \<lparr>Name = n, Value = of_nat (count_list ns n)\<rparr>) (first_seen ns)"

text \<open>The count a slice of entries holds for a name, if any.\<close>

definition count_for :: "PlayerTop list \<Rightarrow> string \<Rightarrow> 64 word option" where
  "count_for list n = map_of (map (\<lambda>p. (Name p, Value p)) list) n"

text \<open>The index map agrees with the slice.\<close>

definition idx_ok :: "counter \<Rightarrow> bool" where
  "idx_ok c =
     (case c of (list, idx) \<Rightarrow>
        distinct (map Name list) \<and>
        (\<forall>n i. (idx n = Some i) = (i < length list \<and> Name (list ! i) = n)))"

subsection \<open>Ranking\<close>

text \<open>
  The sort key that \<^verbatim>\<open>more_deaths\<close> orders by, and what a ranked leaderboard \<open>lb\<close> of
  a stream \<open>S\<close> of names is: counts descending; five entries, or all the players when
  they are fewer than five; players of equal count in the order they were first seen;
  and the entries left out (\<open>rest\<close>) none above an entry kept.
\<close>

definition death_key :: "PlayerTop \<Rightarrow> int" where
  "death_key p = - sint (Value p)"

definition ranked :: "PlayerTop list \<Rightarrow> string list \<Rightarrow> bool" where
  "ranked lb S =
     (sorted_wrt (\<lambda>a b. sint (Value b) \<le> sint (Value a)) lb
      \<and> length lb \<le> 5
      \<and> length lb = min 5 (length (first_seen S))
      \<and> (\<forall>c. prefix (map Name (filter (\<lambda>p. Value p = c) lb))
                      (filter (\<lambda>n. word_of_nat (count_list S n) = c) (first_seen S)))
      \<and> (\<exists>rest. mset (lb @ rest) = mset (tally S)
                  \<and> (\<forall>a\<in>set lb. \<forall>b\<in>set rest. sint (Value b) \<le> sint (Value a))))"

text \<open>All names of a fight's events, and event lists in timestamp order.\<close>

definition names_of :: "DeathEvent list \<Rightarrow> string list" where
  "names_of evs = map (\<lambda>ev. Target_Name (DeathEvent_Target ev)) evs"

definition by_timestamp :: "DeathEvent list \<Rightarrow> bool" where
  "by_timestamp evs = sorted_wrt (\<lambda>a b. Timestamp a \<le> Timestamp b) evs"

text \<open>Sample events and fights for the concrete instances below.\<close>

definition death :: "int \<Rightarrow> string \<Rightarrow> DeathEvent" where
  "death t n = \<lparr>Timestamp = t, Type = ''death'',
                 DeathEvent_Target = \<lparr>Target_Name = n, Target_Server = ''Realm''\<rparr>\<rparr>"

definition fight :: "int \<Rightarrow> Fight" where
  "fight i = \<lparr>Fight_ID = i, Fight_EncounterID = 3000 + i, Fight_Name = ''Boss'',
              Fight_StartTime = 0, Fight_EndTime = 1, Fight_Difficulty = 5, Fight_Kill = False\<rparr>"

definition crowded_fights :: "(Fight \<times> (error + DeathEvent list)) list" where
  "crowded_fights =
     [(fight 1, Inr [death 1 ''A'', death 2 ''B'', death 3 ''C'', death 4 ''D'', death 5 ''E'',
                     death 6 ''F'', death 7 ''G'', death 8 ''F'']),
      (fight 2, Inr [death 1 ''G'', death 2 ''C''])]"

definition crowded_result :: ReportDetails where
  "crowded_result =
     \<lparr>TopDeaths = [\<lparr>Name = ''C'', Value = 2\<rparr>, \<lparr>Name = ''F'', Value = 2\<rparr>,
                   \<lparr>Name = ''G'', Value = 2\<rparr>, \<lparr>Name = ''A'', Value = 1\<rparr>,
                   \<lparr>Name = ''B'', Value = 1\<rparr>],
      TopFirstDeaths = [\<lparr>Name = ''A'', Value = 1\<rparr>, \<lparr>Name = ''G'', Value = 1\<rparr>]\<rparr>"

definition sample_fights :: "(Fight \<times> (error + DeathEvent list)) list" where
  "sample_fights =
     [(fight 1, Inr [death 10 ''Ann'', death 20 ''Bob'', death 30 ''Bob'']),
      (fight 2, Inr [death 15 [], death 25 ''Cid'', death 35 ''Ann'']),
      (fight 3, Inr [death 5 ''Cid''])]"

text \<open>Sample reports for the concrete instances below.\<close>

definition sample_report :: "string \<Rightarrow> int \<Rightarrow> Difficulty list \<Rightarrow> Report" where
  "sample_report c t ds =
     \<lparr>Code = c, Title = ''Raid night'', StartTime = 0, EndTime = t,
      Report_Owner = \<lparr>Owner_Name = ''Uploader''\<rparr>,
      Report_Zone = \<lparr>Zone_Name = ''Manaforge'', Zone_Difficulties = ds\<rparr>\<rparr>"

definition mythic_only :: "Difficulty list" where
  "mythic_only = [\<lparr>Difficulty_Name = ''Mythic'', Difficulty_Sizes = [20]\<rparr>]"

definition flex_only :: "Difficulty list" where
  "flex_only = [\<lparr>Difficulty_Name = ''Heroic'', Difficulty_Sizes = [10, 30]\<rparr>,
                \<lparr>Difficulty_Name = ''Mythic'', Difficulty_Sizes = [20, 25]\<rparr>]"

section \<open>Pagination of death events (warcraftlogs.getDeathEvents)\<close>

text \<open>
  The page cursor is a \<^verbatim>\<open>float64\<close> that the code only copies, so it is kept as its
  64 bits. One page of the events query: the raw JSON records and the cursor of the next
  page, if any.
\<close>

type_synonym float64 = "64 word"

record Events =
  Data :: "string list"
  NextPageTimestamp :: "float64 option"

text \<open>The warnings the function logs.\<close>

datatype log = WarnUnmarshal | WarnMaxPages nat

definition maxPages :: nat where
  "maxPages = 10"

text \<open>
  The loop over the records of one page: \<^verbatim>\<open>json.Unmarshal\<close> is a parameter; a record
  that fails to parse is logged and skipped.
\<close>

fun data_loop ::
  "(string \<Rightarrow> DeathEvent option) \<Rightarrow> string list \<Rightarrow> DeathEvent list \<times> log list
     \<Rightarrow> DeathEvent list \<times> log list" where
  "data_loop unmarshal [] s = s"
| "data_loop unmarshal (raw # rest) (deaths, logs) =
     (case unmarshal raw of
        None \<Rightarrow> data_loop unmarshal rest (deaths, logs @ [WarnUnmarshal])
      | Some ev \<Rightarrow> data_loop unmarshal rest (deaths @ [ev], logs))"

text \<open>
  The pagination loop. \<open>query n cursor\<close> is what the events query returns when it is the
  \<open>n\<close>-th request of the call and carries \<open>cursor\<close> as its \<^verbatim>\<open>startTime\<close> (none on the
  first request). The loop issues one request per iteration, so \<open>n\<close> is
  \<^verbatim>\<open>pageCount\<close>. Besides the state of the Go loop the model records every request
  with its response.
\<close>

type_synonym request = "float64 option \<times> (error + Events)"

function page_loop ::
  "(nat \<Rightarrow> float64 option \<Rightarrow> error + Events) \<Rightarrow> (string \<Rightarrow> DeathEvent option)
     \<Rightarrow> DeathEvent list \<Rightarrow> float64 option \<Rightarrow> nat \<Rightarrow> log list \<Rightarrow> request list
     \<Rightarrow> request list \<times> log list \<times> (error + DeathEvent list)" where
  "page_loop query unmarshal deaths pageTimestamp pageCount logs trace =
     (case query pageCount pageTimestamp of
        Inl err \<Rightarrow> (trace @ [(pageTimestamp, Inl err)], logs, Inl err)
      | Inr evs \<Rightarrow>
          (case data_loop unmarshal (Data evs) (deaths, logs) of
             (deaths', logs') \<Rightarrow>
               (case NextPageTimestamp evs of
                  None \<Rightarrow> (trace @ [(pageTimestamp, Inr evs)], logs', Inr deaths')
                | Some ts \<Rightarrow>
                    if maxPages \<le> pageCount + 1
                    then (trace @ [(pageTimestamp, Inr evs)],
                          logs' @ [WarnMaxPages maxPages], Inr deaths')
                    else page_loop query unmarshal deaths' (Some ts) (pageCount + 1) logs'
                           (trace @ [(pageTimestamp, Inr evs)]))))"
  by pat_completeness auto
termination
  by (relation "measure (\<lambda>(query, unmarshal, deaths, pageTimestamp, pageCount, logs, trace).
        maxPages - pageCount)") auto

text \<open>
  \<^verbatim>\<open>sort.Slice(x, less)\<close> is the library's sort: \<open>sortSlice\<close>, which takes the
  comparison. It is not stable and its algorithm is not fixed, so all that is known of
  it is its contract \<open>sort_contract\<close>: for a comparison that is a strict weak order
  the result is a permutation of the slice in which no element is less than one before
  it. The comparison that \<^verbatim>\<open>getDeathEvents\<close> passes is
  \<^verbatim>\<open>deaths[i].Timestamp < deaths[j].Timestamp\<close>. On an error the function
  returns before sorting.
\<close>

definition timestamp_less :: "DeathEvent \<Rightarrow> DeathEvent \<Rightarrow> bool" where
  "timestamp_less a b = (Timestamp a < Timestamp b)"

definition getDeathEvents ::
  "((DeathEvent \<Rightarrow> DeathEvent \<Rightarrow> bool) \<Rightarrow> DeathEvent list \<Rightarrow> DeathEvent list)
     \<Rightarrow> (nat \<Rightarrow> float64 option \<Rightarrow> error + Events)
     \<Rightarrow> (string \<Rightarrow> DeathEvent option)
     \<Rightarrow> request list \<times> log list \<times> (error + DeathEvent list)" where
  "getDeathEvents sortSlice query unmarshal =
     (case page_loop query unmarshal [] None 0 [] [] of
        (trace, logs, r) \<Rightarrow>
          (trace, logs,
           case r of Inl err \<Rightarrow> Inl err | Inr deaths \<Rightarrow> Inr (sortSlice timestamp_less deaths)))"

definition strict_weak_order :: "('a \<Rightarrow> 'a \<Rightarrow> bool) \<Rightarrow> bool" where
  "strict_weak_order lt =
     ((\<forall>a. \<not> lt a a) \<and> (\<forall>a b c. lt a b \<and> lt b c \<longrightarrow> lt a c)
      \<and> (\<forall>a b c. \<not> lt a b \<and> \<not> lt b c \<longrightarrow> \<not> lt a c))"

definition sort_contract :: "(('a \<Rightarrow> 'a \<Rightarrow> bool) \<Rightarrow> 'a list \<Rightarrow> 'a list) \<Rightarrow> bool" where
  "sort_contract sortSlice =
     (\<forall>lt xs. strict_weak_order lt \<longrightarrow>
        mset (sortSlice lt xs) = mset xs \<and> sorted_wrt (\<lambda>a b. \<not> lt b a) (sortSlice lt xs))"

text \<open>
  Each request after the first carries the cursor that the response before it returned;
  the responses are the server's; the events of a response that parse.
\<close>

fun follows_cursor :: "request list \<Rightarrow> bool" where
  "follows_cursor [] = True"
| "follows_cursor [q] = True"
| "follows_cursor ((c1, r1) # (c2, r2) # rest) =
     ((case r1 of Inl err \<Rightarrow> False
       | Inr evs \<Rightarrow> NextPageTimestamp evs \<noteq> None \<and> c2 = NextPageTimestamp evs)
      \<and> follows_cursor ((c2, r2) # rest))"

fun served :: "(nat \<Rightarrow> float64 option \<Rightarrow> error + Events) \<Rightarrow> nat \<Rightarrow> request list \<Rightarrow> bool" where
  "served query k [] = True"
| "served query k ((c, r) # rest) = (r = query k c \<and> served query (Suc k) rest)"

definition parsed :: "(string \<Rightarrow> DeathEvent option) \<Rightarrow> request \<Rightarrow> DeathEvent list" where
  "parsed unmarshal q =
     (case snd q of Inl err \<Rightarrow> [] | Inr evs \<Rightarrow> List.map_filter unmarshal (Data evs))"

text \<open>Sample servers: three pages out of order, and one that never ends.\<close>

definition sample_unmarshal :: "string \<Rightarrow> DeathEvent option" where
  "sample_unmarshal =
     map_of [(''e1'', death 10 ''Ann''), (''e2'', death 20 ''Bob''), (''e3'', death 30 ''Cid'')]"

definition sample_gql :: "nat \<Rightarrow> float64 option \<Rightarrow> error + Events" where
  "sample_gql k c =
     (if c = None then Inr \<lparr>Data = [''e3'', ''garbled''], NextPageTimestamp = Some 7\<rparr>
      else if c = Some 7 then Inr \<lparr>Data = [''e1''], NextPageTimestamp = Some 9\<rparr>
      else Inr \<lparr>Data = [''e2''], NextPageTimestamp = None\<rparr>)"

definition endless_gql :: "nat \<Rightarrow> float64 option \<Rightarrow> error + Events" where
  "endless_gql k c = Inr \<lparr>Data = [], NextPageTimestamp = Some (of_nat k)\<rparr>"

definition sample_trace :: "request list" where
  "sample_trace =
     [(None, Inr \<lparr>Data = [''e3'', ''garbled''], NextPageTimestamp = Some 7\<rparr>),
      (Some 7, Inr \<lparr>Data = [''e1''], NextPageTimestamp = Some 9\<rparr>),
      (Some 9, Inr \<lparr>Data = [''e2''], NextPageTimestamp = None\<rparr>)]"

section \<open>Token lifecycle and query execution (warcraftlogs.Client)\<close>

text \<open>
  The mutable part of the client: the token and its expiry. Instants of \<^verbatim>\<open>time.Time\<close>
  are nanoseconds on the client's clock.
\<close>

record Client =
  token :: string
  expiresAt :: int

definition tokenSkew :: int where
  "tokenSkew = 60 * 1000000000"

text \<open>
  The condition both functions test:
  \<^verbatim>\<open>tok != "" && time.Now().Add(tokenSkew).Before(exp)\<close>.
\<close>

definition fresh :: "Client \<Rightarrow> int \<Rightarrow> bool" where
  "fresh c now = (token c \<noteq> [] \<and> now + tokenSkew < expiresAt c)"

text \<open>
  An HTTP call either fails in the library (\<^verbatim>\<open>err != nil\<close>) or gives a response:
  status, body and the value the library decoded into the \<^verbatim>\<open>SetResult\<close> target.
  \<^verbatim>\<open>resp.IsError()\<close> is a status above 399.
\<close>

record tokenResp =
  AccessToken :: string
  ExpiresIn :: int
  TokenType :: string

datatype 'a http = Failed error | Response nat string 'a

definition IsError :: "nat \<Rightarrow> bool" where
  "IsError status = (399 < status)"

text \<open>
  \<^verbatim>\<open>getToken\<close>, given the reply of the token endpoint and the clock reading taken after
  it. \<^verbatim>\<open>time.Duration(tr.ExpiresIn) * time.Second\<close> is a 64-bit product.
\<close>

definition wrap64 :: "int \<Rightarrow> int" where
  "wrap64 x = (x + 2 ^ 63) mod 2 ^ 64 - 2 ^ 63"

record exchange =
  reply :: "tokenResp http"
  replied_at :: int

definition getToken :: "exchange \<Rightarrow> error + (string \<times> int)" where
  "getToken ex =
     (case reply ex of
        Failed err \<Rightarrow> Inl err
      | Response status body tr \<Rightarrow>
          if IsError status then Inl (OAuthFailed status body)
          else Inr (AccessToken tr, replied_at ex + wrap64 (ExpiresIn tr * 1000000000)))"

text \<open>
  \<^verbatim>\<open>refreshToken\<close> and \<^verbatim>\<open>ensureToken\<close> return the client, the error if any, and the
  number of credential exchanges they issued. Between the read lock of
  \<^verbatim>\<open>ensureToken\<close> and the write lock of \<^verbatim>\<open>refreshToken\<close> another task may have
  refreshed the token: \<open>locked\<close> is the client as found under the write lock, and
  \<open>now'\<close> the clock then.
\<close>

definition refreshToken :: "Client \<Rightarrow> int \<Rightarrow> exchange \<Rightarrow> Client \<times> error option \<times> nat" where
  "refreshToken c now ex =
     (if fresh c now then (c, None, 0)
      else
        (case getToken ex of
           Inl err \<Rightarrow> (c, Some err, 1)
         | Inr (tok, exp) \<Rightarrow> (c\<lparr>token := tok, expiresAt := exp\<rparr>, None, 1)))"

definition ensureToken ::
  "Client \<Rightarrow> int \<Rightarrow> Client \<Rightarrow> int \<Rightarrow> exchange \<Rightarrow> Client \<times> error option \<times> nat" where
  "ensureToken c now locked now' ex =
     (if fresh c now then (c, None, 0) else refreshToken locked now' ex)"

text \<open>
  \<^verbatim>\<open>gql\<close>. Its environment: the clock readings, the replies of the token endpoint
  should it be asked, the reply \<open>post n tok\<close> of the GraphQL endpoint to the \<open>n\<close>-th
  request when it carries the token \<open>tok\<close>, whether \<^verbatim>\<open>out\<close> is nil, and
  \<^verbatim>\<open>json.Unmarshal\<close> on the data. The result carries the tokens of the requests sent
  and the number of credential exchanges.
\<close>

record gqlError =
  Message :: string

record gqlEnvelope =
  Envelope_Data :: string
  Envelope_Errors :: "gqlError list"

record 'a gql_env =
  now_ensure :: int
  now_locked :: int
  first_exchange :: exchange
  post :: "nat \<Rightarrow> string \<Rightarrow> gqlEnvelope http"
  now_retry :: int
  retry_exchange :: exchange
  out_nil :: bool
  unmarshal_out :: "string \<Rightarrow> error + 'a"

definition decode :: "'a gql_env \<Rightarrow> nat \<Rightarrow> string \<Rightarrow> gqlEnvelope \<Rightarrow> error + 'a" where
  "decode e status body env =
     (if IsError status then Inl (GraphqlStatus status body)
      else if 0 < length (Envelope_Errors env)
        then Inl (GraphqlError (Message (Envelope_Errors env ! 0)))
      else if out_nil e \<or> length (Envelope_Data env) = 0 \<or> Envelope_Data env = ''null''
        then Inl EmptyData
      else unmarshal_out e (Envelope_Data env))"

definition gql :: "'a gql_env \<Rightarrow> Client \<Rightarrow> Client \<times> (error + 'a) \<times> string list \<times> nat" where
  "gql e c =
     (case ensureToken c (now_ensure e) c (now_locked e) (first_exchange e) of
        (c1, Some err, n1) \<Rightarrow> (c1, Inl err, [], n1)
      | (c1, None, n1) \<Rightarrow>
          (case post e 0 (token c1) of
             Failed err \<Rightarrow> (c1, Inl err, [token c1], n1)
           | Response status body env \<Rightarrow>
               if status = 401 then
                 (case refreshToken c1 (now_retry e) (retry_exchange e) of
                    (c2, Some err, n2) \<Rightarrow> (c2, Inl (RefreshAfter401 err), [token c1], n1 + n2)
                  | (c2, None, n2) \<Rightarrow>
                      (case post e 1 (token c2) of
                         Failed err \<Rightarrow> (c2, Inl err, [token c1, token c2], n1 + n2)
                       | Response status' body' env' \<Rightarrow>
                           (c2, decode e status' body' env', [token c1, token c2], n1 + n2)))
               else (c1, decode e status body env, [token c1], n1)))"

text \<open>Sample clients and token endpoints.\<close>

definition sample_client :: Client where
  "sample_client = \<lparr>token = ''T1'', expiresAt = 3600 * 1000000000\<rparr>"

definition stale_client :: Client where
  "stale_client = \<lparr>token = ''T0'', expiresAt = 30 * 1000000000\<rparr>"

definition sample_exchange :: exchange where
  "sample_exchange =
     \<lparr>reply = Response 200 ''ok'' \<lparr>AccessToken = ''T2'', ExpiresIn = 3600, TokenType = ''Bearer''\<rparr>,
      replied_at = 1000000000\<rparr>"

definition failed_exchange :: exchange where
  "failed_exchange =
     \<lparr>reply = Response 503 ''down'' \<lparr>AccessToken = [], ExpiresIn = 0, TokenType = []\<rparr>,
      replied_at = 1000000000\<rparr>"

text \<open>A server that has revoked T1: it answers 401 to T1 and serves any other token.\<close>

definition revoked_env :: "string gql_env" where
  "revoked_env =
     \<lparr>now_ensure = 0, now_locked = 0, first_exchange = sample_exchange,
      post = (\<lambda>n tok. if tok = ''T1''
                then Response 401 ''unauthorized'' \<lparr>Envelope_Data = [], Envelope_Errors = []\<rparr>
                else Response 200 ''ok'' \<lparr>Envelope_Data = ''{}'', Envelope_Errors = []\<rparr>),
      now_retry = 0, retry_exchange = sample_exchange, out_nil = False, unmarshal_out = Inr\<rparr>"

section \<open>The change detector (watcher.checkChanges)\<close>

record Server =
  ServerId :: string
  ChannelId :: string
  WlGuildId :: int
  WipeCutoff :: int

record StatsEvent =
  StatsEvent_Server :: Server
  ReportId :: string
  StatsEvent_Title :: string
  StatsEvent_Zone :: string
  URL :: string
  Live :: bool
  TopDPS :: "PlayerTop list"
  TopHPS :: "PlayerTop list"
  TopDeath :: "PlayerTop list"
  TopFirstDeath :: "PlayerTop list"
  StartedBy :: string
  StartedAt :: int
  LastUpload :: int

record CachedReport =
  code :: string
  endTime :: int
  isLive :: bool

text \<open>
  Instants are nanoseconds on the watcher's clock. \<^verbatim>\<open>time.UnixMilli\<close> turns the
  report's milliseconds into an instant; \<^verbatim>\<open>time.Since\<close> gives a
  \<^verbatim>\<open>time.Duration\<close>, which saturates at the ends of the 64-bit range.
\<close>

definition UnixMilli :: "int \<Rightarrow> int" where
  "UnixMilli msec = msec * 1000000"

definition saturate :: "int \<Rightarrow> int" where
  "saturate d = (if d < - (2 ^ 63) then - (2 ^ 63) else if 2 ^ 63 - 1 < d then 2 ^ 63 - 1 else d)"

definition Since :: "int \<Rightarrow> int \<Rightarrow> int" where
  "Since now t = saturate (now - t)"

definition isOutdated :: "int \<Rightarrow> Report \<Rightarrow> bool" where
  "isOutdated now report = (15 * 60 * 1000000000 < Since now (UnixMilli (EndTime report)))"

text \<open>
  The cache of the watch loop is created with a time-to-live of one hour
  (\<^verbatim>\<open>ttlcache.WithTTL(1 * time.Hour)\<close>) and its expired entries are dropped by the
  cleaner started beside it. An entry is its value and the instant it expires.
  \<open>cache_Get\<close> finds an entry that has not expired; whether a hit also renews the
  entry's time-to-live is the flag \<open>touch\<close>, so that every statement below holds for
  a cache that does and for one that does not. \<open>cache_Set\<close> stores a value with a
  full time-to-live.
\<close>

record cache_item =
  item_value :: CachedReport
  item_expires :: int

type_synonym cache = "string \<rightharpoonup> cache_item"

definition ttl :: int where
  "ttl = 3600 * 1000000000"

definition cache_Get :: "bool \<Rightarrow> int \<Rightarrow> cache \<Rightarrow> string \<Rightarrow> cache \<times> CachedReport option" where
  "cache_Get touch now c k =
     (case c k of
        None \<Rightarrow> (c, None)
      | Some it \<Rightarrow>
          if item_expires it < now then (c, None)
          else ((if touch then c(k \<mapsto> it\<lparr>item_expires := now + ttl\<rparr>) else c),
                Some (item_value it)))"

definition cache_Set :: "int \<Rightarrow> cache \<Rightarrow> string \<Rightarrow> CachedReport \<Rightarrow> cache" where
  "cache_Set now c k v = c(k \<mapsto> \<lparr>item_value = v, item_expires = now + ttl\<rparr>)"

text \<open>
  What one iteration of the loop over the reports meets: the clock when the age of the
  report is taken, when the cache is read and when it is written; what the log service
  answers to the requests of \<^verbatim>\<open>TopDeathsForReport\<close>; and whether the context of
  the cycle is done when \<^verbatim>\<open>sendUpdate\<close> runs.
\<close>

record cycle_env =
  now_since :: int
  now_get :: int
  bossFights :: "error + (Fight \<times> (error + DeathEvent list)) list"
  ctx_done :: bool
  now_set :: int

text \<open>
  The state of a watch loop: its cache and the events handed to the handler so far.
  Log lines are not part of the model.
\<close>

record watch_state =
  reportsCache :: cache
  handled :: "StatsEvent list"

definition stats_event :: "Server \<Rightarrow> bool \<Rightarrow> Report \<Rightarrow> ReportDetails \<Rightarrow> StatsEvent" where
  "stats_event server live report details =
     \<lparr>StatsEvent_Server = server,
      ReportId = Code report,
      StatsEvent_Title = Title report,
      StatsEvent_Zone = Zone_Name (Report_Zone report),
      URL = ''https://www.warcraftlogs.com/reports/'' @ Code report,
      Live = live,
      TopDPS = [],
      TopHPS = [],
      TopDeath = TopDeaths details,
      TopFirstDeath = TopFirstDeaths details,
      StartedBy = Owner_Name (Report_Owner report),
      StartedAt = UnixMilli (StartTime report),
      LastUpload = UnixMilli (EndTime report)\<rparr>"

definition sendUpdate ::
  "bool \<Rightarrow> Server \<Rightarrow> bool \<Rightarrow> Report \<Rightarrow> ReportDetails \<Rightarrow> StatsEvent list \<Rightarrow> StatsEvent list" where
  "sendUpdate done server live report details hs =
     (if done then hs else hs @ [stats_event server live report details])"

text \<open>
  The three emitting branches of the \<^verbatim>\<open>switch\<close> run the same statements with a
  different liveness: fetch the details (on an error \<^verbatim>\<open>continue\<close>), send the update,
  write the cache.
\<close>

definition fetch_and_send ::
  "Server \<Rightarrow> cycle_env \<Rightarrow> Report \<Rightarrow> bool \<Rightarrow> cache \<Rightarrow> watch_state \<Rightarrow> watch_state" where
  "fetch_and_send server e report live c1 s =
     (case TopDeathsForReport (bossFights e) of
        Inl err \<Rightarrow> s\<lparr>reportsCache := c1\<rparr>
      | Inr details \<Rightarrow>
          s\<lparr>handled := sendUpdate (ctx_done e) server live report details (handled s),
            reportsCache :=
              cache_Set (now_set e) c1 (Code report)
                \<lparr>code = Code report, endTime = EndTime report, isLive = live\<rparr>\<rparr>)"

text \<open>The body of the loop over the reports.\<close>

definition check_report :: "bool \<Rightarrow> Server \<Rightarrow> cycle_env \<Rightarrow> Report \<Rightarrow> watch_state \<Rightarrow> watch_state" where
  "check_report touch server e report s =
     (let outdated = isOutdated (now_since e) report in
      case cache_Get touch (now_get e) (reportsCache s) (Code report) of
        (c1, None) \<Rightarrow>
          if outdated then s\<lparr>reportsCache := c1\<rparr>
          else fetch_and_send server e report True c1 s
      | (c1, Some cachedReport) \<Rightarrow>
          if endTime cachedReport \<noteq> EndTime report
            then fetch_and_send server e report (\<not> outdated) c1 s
          else if isLive cachedReport \<and> outdated
            then fetch_and_send server e report False c1 s
          else s\<lparr>reportsCache := c1\<rparr>)"

fun run :: "bool \<Rightarrow> Server \<Rightarrow> (Report \<times> cycle_env) list \<Rightarrow> watch_state \<Rightarrow> watch_state" where
  "run touch server [] s = s"
| "run touch server ((report, e) # rest) s = run touch server rest (check_report touch server e report s)"

definition iterations_of :: "(nat \<Rightarrow> cycle_env) \<Rightarrow> Report list \<Rightarrow> (Report \<times> cycle_env) list" where
  "iterations_of envs reports = map (\<lambda>i. (reports ! i, envs i)) [0..<length reports]"

text \<open>
  \<^verbatim>\<open>checkChanges\<close>, given the result of \<^verbatim>\<open>FindReports\<close> and what the
  \<open>i\<close>-th iteration meets; and the cycles of a watch loop one after the other.
\<close>

definition checkChanges ::
  "bool \<Rightarrow> Server \<Rightarrow> error + Report list \<Rightarrow> (nat \<Rightarrow> cycle_env) \<Rightarrow> watch_state \<Rightarrow> watch_state" where
  "checkChanges touch server found envs s =
     (case found of
        Inl err \<Rightarrow> s
      | Inr reports \<Rightarrow> run touch server (iterations_of envs (deleteNonRaid reports)) s)"

fun cycles ::
  "bool \<Rightarrow> Server \<Rightarrow> ((error + Report list) \<times> (nat \<Rightarrow> cycle_env)) list \<Rightarrow> watch_state \<Rightarrow> watch_state" where
  "cycles touch server [] s = s"
| "cycles touch server ((found, envs) # rest) s =
     cycles touch server rest (checkChanges touch server found envs s)"



text \<open>
  Samples: a tracked guild, a report ABC with a given end time (milliseconds), what an
  iteration meets at a given clock reading, two states of a watch loop, and two sequences
  of cycles. In
  \<open>outage\<close> the report ends fifty minutes ahead of the watcher's clock, its update is
  suppressed at the first cycle, the log service cannot be reached at the cycle half an
  hour later (as at every cycle of that hour, which leave the state as it is), and
  the report is listed again after sixty-one minutes.
\<close>

definition sample_server :: Server where
  "sample_server = \<lparr>ServerId = ''guild-1'', ChannelId = ''channel-1'', WlGuildId = 42, WipeCutoff = 3\<rparr>"

definition minute :: int where
  "minute = 60 * 1000000000"

definition abc :: "int \<Rightarrow> Report" where
  "abc t = sample_report ''ABC'' t mythic_only"

definition env_at ::
  "int \<Rightarrow> error + (Fight \<times> (error + DeathEvent list)) list \<Rightarrow> bool \<Rightarrow> cycle_env" where
  "env_at now fights done =
     \<lparr>now_since = now, now_get = now, bossFights = fights, ctx_done = done, now_set = now\<rparr>"

definition empty_state :: watch_state where
  "empty_state = \<lparr>reportsCache = Map.empty, handled = []\<rparr>"

definition no_details :: ReportDetails where
  "no_details = \<lparr>TopDeaths = [], TopFirstDeaths = []\<rparr>"



definition live_state :: watch_state where
  "live_state =
     \<lparr>reportsCache = cache_Set 0 Map.empty ''ABC'' \<lparr>code = ''ABC'', endTime = 0, isLive = True\<rparr>,
      handled = [stats_event sample_server True (abc 0) no_details]\<rparr>"

section \<open>The watch supervisor (watcher.Watch, watcher.Unwatch)\<close>

text \<open>
  The map \<^verbatim>\<open>watched\<close> from a guild identifier to the cancel function of its loop. A
  context is named by a number: \<open>contexts\<close> counts those created so far, \<open>started\<close> lists
  the loops started with the context each one watches, and \<open>cancelled\<close> lists the
  contexts whose cancel function has been called.
\<close>

record supervisor =
  watched :: "string \<rightharpoonup> nat"
  contexts :: nat
  started :: "(Server \<times> nat) list"
  cancelled :: "nat list"

definition New :: supervisor where
  "New = \<lparr>watched = Map.empty, contexts = 0, started = [], cancelled = []\<rparr>"

text \<open>
  \<^verbatim>\<open>context.WithCancel\<close> makes a new context; \<^verbatim>\<open>LoadOrStore\<close> stores the value
  unless the key has one and reports whether it had; \<^verbatim>\<open>LoadAndDelete\<close> removes the
  key and returns what it held.
\<close>

definition WithCancel :: "supervisor \<Rightarrow> supervisor \<times> nat" where
  "WithCancel w = (w\<lparr>contexts := contexts w + 1\<rparr>, contexts w)"

definition LoadOrStore :: "string \<Rightarrow> nat \<Rightarrow> supervisor \<Rightarrow> supervisor \<times> bool" where
  "LoadOrStore key v w =
     (case watched w key of
        Some c \<Rightarrow> (w, True)
      | None \<Rightarrow> (w\<lparr>watched := (watched w)(key \<mapsto> v)\<rparr>, False))"

definition LoadAndDelete :: "string \<Rightarrow> supervisor \<Rightarrow> supervisor \<times> nat option" where
  "LoadAndDelete key w = (w\<lparr>watched := (watched w)(key := None)\<rparr>, watched w key)"

definition go_watchLoop :: "nat \<Rightarrow> Server \<Rightarrow> supervisor \<Rightarrow> supervisor" where
  "go_watchLoop ctx server w = w\<lparr>started := started w @ [(server, ctx)]\<rparr>"

definition call_cancel :: "nat \<Rightarrow> supervisor \<Rightarrow> supervisor" where
  "call_cancel c w = w\<lparr>cancelled := cancelled w @ [c]\<rparr>"

text \<open>
  \<^verbatim>\<open>Watch\<close> creates a context, and stores its cancel function unless the guild has
  one; only when it stored does it start the loop. \<^verbatim>\<open>Unwatch\<close> removes the entry of
  the guild and calls the cancel function that it held, if any.
\<close>

definition Watch :: "Server \<Rightarrow> supervisor \<Rightarrow> supervisor" where
  "Watch server w =
     (let (w1, ctx) = WithCancel w;
          (w2, isLoaded) = LoadOrStore (ServerId server) ctx w1
      in if \<not> isLoaded then go_watchLoop ctx server w2 else w2)"

definition Unwatch :: "string \<Rightarrow> supervisor \<Rightarrow> supervisor" where
  "Unwatch serverId w =
     (let (w1, isKnown) = LoadAndDelete serverId w in
      case isKnown of
        Some c \<Rightarrow> call_cancel c w1
      | None \<Rightarrow> w1)"

text \<open>A sequence of calls that run one after the other.\<close>

datatype call = CallWatch Server | CallUnwatch string

fun calls :: "call list \<Rightarrow> supervisor \<Rightarrow> supervisor" where
  "calls [] w = w"
| "calls (CallWatch server # cs) w = calls cs (Watch server w)"
| "calls (CallUnwatch serverId # cs) w = calls cs (Unwatch serverId w)"

text \<open>
  The active loops of a guild are the loops started for it whose context has not been
  cancelled. \<open>supervisor_ok\<close> is the invariant of the supervisor.
\<close>

definition active :: "supervisor \<Rightarrow> string \<Rightarrow> (Server \<times> nat) list" where
  "active w g = filter (\<lambda>(server, c). ServerId server = g \<and> c \<notin> set (cancelled w)) (started w)"

definition supervisor_ok :: "supervisor \<Rightarrow> bool" where
  "supervisor_ok w =
     ((\<forall>p\<in>set (started w). snd p < contexts w)
      \<and> (\<forall>c\<in>set (cancelled w). c < contexts w)
      \<and> distinct (map snd (started w))
      \<and> (\<forall>g c. watched w g = Some c \<longrightarrow>
            c \<notin> set (cancelled w) \<and> (\<exists>server. ServerId server = g \<and> (server, c) \<in> set (started w)))
      \<and> (\<forall>p\<in>set (started w). snd p \<notin> set (cancelled w) \<longrightarrow>
            watched w (ServerId (fst p)) = Some (snd p)))"
















section \<open>Properties of the raid filter\<close>

lemma single_size: "(length xs = 1 \<and> xs ! 0 = (20::int)) = (xs = [20])"
  by (cases xs) auto

lemma nonRaid_iff:
  "nonRaid ds = (\<not> list_ex (\<lambda>d. Difficulty_Name d = ''Mythic'' \<and> Difficulty_Sizes d = [20]) ds)"
proof (induction ds)
  case Nil
  show ?case by simp
next
  case (Cons d ds)
  have "(length (Difficulty_Sizes d) = 1 \<and> Difficulty_Sizes d ! 0 = 20) = (Difficulty_Sizes d = [20])"
    by (rule single_size)
  with Cons show ?case by auto
qed

lemma deleteNonRaid_filter: "deleteNonRaid rs = filter mythic20 rs"
proof -
  have "(\<lambda>r. \<not> nonRaid (Zone_Difficulties (Report_Zone r))) = mythic20"
    by (rule ext) (simp add: mythic20_def nonRaid_iff)
  then show ?thesis by (simp add: deleteNonRaid_def DeleteFunc_def)
qed

section \<open>Properties of the leaderboards\<close>

lemma set_first_seen: "set (first_seen ns) = set ns"
  by (induction ns) auto

lemma distinct_first_seen: "distinct (first_seen ns)"
  by (induction ns) (auto simp: set_first_seen)

lemma first_seen_snoc:
  "first_seen (ns @ [n]) = (if n \<in> set ns then first_seen ns else first_seen ns @ [n])"
  by (induction ns) (auto simp: set_first_seen)

lemma length_tally: "length (tally ns) = length (first_seen ns)"
  by (simp add: tally_def)

lemma map_Name_tally: "map Name (tally ns) = first_seen ns"
  by (simp add: tally_def comp_def)

lemma Name_tally_nth:
  assumes "i < length (tally ns)"
  shows "Name (tally ns ! i) \<in> set ns"
proof -
  have i: "i < length (first_seen ns)" using assms by (simp add: tally_def)
  then have "Name (tally ns ! i) = first_seen ns ! i" by (simp add: tally_def)
  moreover have "first_seen ns ! i \<in> set (first_seen ns)" using i by (rule nth_mem)
  ultimately show ?thesis by (simp add: set_first_seen)
qed

lemma Name_tally_nth_eq: "i < length (first_seen ns) \<Longrightarrow> Name (tally ns ! i) = first_seen ns ! i"
  by (simp add: tally_def)

lemma idx_ok_tally:
  "idx_ok (tally ns, idx) =
     (\<forall>n i. (idx n = Some i) = (i < length (first_seen ns) \<and> first_seen ns ! i = n))"
  by (simp add: idx_ok_def map_Name_tally distinct_first_seen length_tally Name_tally_nth_eq
      cong: conj_cong)

lemma tally_snoc_new:
  assumes "n \<notin> set ns"
  shows "tally (ns @ [n]) = tally ns @ [\<lparr>Name = n, Value = 1\<rparr>]"
  using assms by (auto simp: tally_def first_seen_snoc set_first_seen)

lemma tally_snoc_old:
  assumes "i < length (first_seen ns)" "first_seen ns ! i = n"
  shows "tally (ns @ [n]) = (tally ns)[i := (tally ns ! i)\<lparr>Value := Value (tally ns ! i) + 1\<rparr>]"
proof (rule nth_equalityI)
  have mem: "n \<in> set ns" using assms set_first_seen nth_mem by metis
  show "length (tally (ns @ [n])) = length ((tally ns)[i := (tally ns ! i)\<lparr>Value := Value (tally ns ! i) + 1\<rparr>])"
    using mem by (simp add: tally_def first_seen_snoc)
  fix j assume "j < length (tally (ns @ [n]))"
  then have j: "j < length (first_seen ns)" using mem by (simp add: tally_def first_seen_snoc)
  show "tally (ns @ [n]) ! j = (tally ns)[i := (tally ns ! i)\<lparr>Value := Value (tally ns ! i) + 1\<rparr>] ! j"
  proof (cases "j = i")
    case True
    then show ?thesis using j mem assms by (simp add: tally_def first_seen_snoc)
  next
    case False
    then have "first_seen ns ! j \<noteq> n"
      using assms j distinct_first_seen [of ns] by (auto simp: distinct_conv_nth)
    then show ?thesis using j mem False by (simp add: tally_def first_seen_snoc)
  qed
qed

lemma inc_tally:
  assumes ok: "idx_ok (tally ns, idx)" and n: "n \<noteq> []"
  shows "\<exists>idx'. inc (tally ns, idx) n = Inr (tally (ns @ [n]), idx') \<and> idx_ok (tally (ns @ [n]), idx')"
proof (cases "n \<in> set ns")
  case False
  have none: "idx n = None"
  proof (cases "idx n")
    case (Some i)
    then have "i < length (tally ns) \<and> Name (tally ns ! i) = n" using ok by (simp add: idx_ok_def)
    then have "n \<in> set (map Name (tally ns))" by (metis length_map nth_map nth_mem)
    then show ?thesis using False by (simp add: map_Name_tally set_first_seen)
  qed simp
  let ?idx = "idx(n \<mapsto> length (tally ns))"
  have "inc (tally ns, idx) n = Inr (tally (ns @ [n]), ?idx)"
    using n none False by (simp add: inc_def tally_snoc_new)
  moreover have "idx_ok (tally (ns @ [n]), ?idx)"
  proof -
    have a: "\<forall>m i. (idx m = Some i) = (i < length (first_seen ns) \<and> first_seen ns ! i = m)"
      using ok by (simp add: idx_ok_tally)
    have b: "\<And>i. i < length (first_seen ns) \<Longrightarrow> first_seen ns ! i \<noteq> n"
      using False set_first_seen [of ns] nth_mem by metis
    show ?thesis
      unfolding idx_ok_tally
    proof (intro allI)
      fix m i
      show "(?idx m = Some i) =
            (i < length (first_seen (ns @ [n])) \<and> first_seen (ns @ [n]) ! i = m)"
      proof (cases "m = n")
        case True
        then show ?thesis using False b
          by (auto simp: first_seen_snoc length_tally nth_append)
      next
        case neq: False
        then show ?thesis using False a b
          by (auto simp: first_seen_snoc length_tally nth_append)
      qed
    qed
  qed
  ultimately show ?thesis by blast
next
  case True
  then have "n \<in> set (first_seen ns)" by (simp add: set_first_seen)
  then obtain i where i: "i < length (first_seen ns)" "first_seen ns ! i = n"
    by (auto simp: in_set_conv_nth)
  then have "Name (tally ns ! i) = n" by (simp add: tally_def)
  then have some: "idx n = Some i" using ok i by (simp add: idx_ok_def length_tally)
  have "inc (tally ns, idx) n = Inr (tally (ns @ [n]), idx)"
    using n some i by (simp add: inc_def tally_snoc_old length_tally)
  moreover have "idx_ok (tally (ns @ [n]), idx)"
    using ok True by (simp add: idx_ok_tally first_seen_snoc)
  ultimately show ?thesis by blast
qed

lemma inc_counter:
  assumes "fst c = tally ns" "idx_ok c" "n \<noteq> []"
  shows "\<exists>c'. inc c n = Inr c' \<and> fst c' = tally (ns @ [n]) \<and> idx_ok c'"
proof -
  obtain idx where c: "c = (tally ns, idx)" using assms(1) by (cases c) simp
  from inc_tally [of ns idx n] assms c show ?thesis by auto
qed

lemma qualifying_Cons:
  "qualifying (ev # evs) =
     (if Target_Name (DeathEvent_Target ev) = [] then qualifying evs
      else Target_Name (DeathEvent_Target ev) # qualifying evs)"
  by (simp add: qualifying_def)

lemma events_loop_tally:
  assumes "fst t = tally A" "idx_ok t" "fst f = tally B" "idx_ok f"
  shows "\<exists>t' f'. events_loop evs (t, f, taken) = Inr (t', f', taken \<or> qualifying evs \<noteq> [])
           \<and> fst t' = tally (A @ qualifying evs) \<and> idx_ok t'
           \<and> fst f' = tally (B @ (if taken then [] else first_death evs)) \<and> idx_ok f'"
  using assms
proof (induction evs arbitrary: t f taken A B)
  case Nil
  then show ?case by (simp add: qualifying_def first_death_def)
next
  case (Cons ev evs)
  let ?n = "Target_Name (DeathEvent_Target ev)"
  show ?case
  proof (cases "?n = []")
    case True
    with Cons.IH [OF Cons.prems, of taken] show ?thesis
      by (cases taken) (simp_all add: qualifying_Cons first_death_def)
  next
    case False
    obtain t1 where t1: "inc t ?n = Inr t1" "fst t1 = tally (A @ [?n])" "idx_ok t1"
      using inc_counter [OF Cons.prems(1,2) False] by blast
    show ?thesis
    proof (cases taken)
      case True
      from Cons.IH [OF t1(2,3) Cons.prems(3,4), of True] True False t1(1)
      show ?thesis by (simp add: qualifying_Cons)
    next
      case nt: False
      obtain f1 where f1: "inc f ?n = Inr f1" "fst f1 = tally (B @ [?n])" "idx_ok f1"
        using inc_counter [OF Cons.prems(3,4) False] by blast
      from Cons.IH [OF t1(2,3) f1(2,3), of True] nt False t1(1) f1(1)
      show ?thesis by (simp add: qualifying_Cons first_death_def)
    qed
  qed
qed

lemma fights_loop_tally:
  assumes "fst t = tally A" "idx_ok t" "fst f = tally B" "idx_ok f"
  shows "case fights_loop fs (t, f) of
           Inl e \<Rightarrow> \<exists>ft err. (ft, Inl err) \<in> set fs \<and> e = EventsForFight (Fight_ID ft) err
         | Inr (t', f') \<Rightarrow>
             list_all (\<lambda>(ft, r). \<not> isl r) fs
             \<and> fst t' = tally (A @ all_deaths fs) \<and> idx_ok t'
             \<and> fst f' = tally (B @ all_first_deaths fs) \<and> idx_ok f'"
  using assms
proof (induction fs arbitrary: t f A B)
  case Nil
  then show ?case by (simp add: all_deaths_def all_first_deaths_def events_of_def)
next
  case (Cons p fs)
  obtain ft r where p: "p = (ft, r)" by (cases p)
  show ?case
  proof (cases r)
    case (Inl err)
    then show ?thesis using p by auto
  next
    case (Inr evs)
    obtain t1 f1 where l: "events_loop evs (t, f, False) = Inr (t1, f1, qualifying evs \<noteq> [])"
      "fst t1 = tally (A @ qualifying evs)" "idx_ok t1"
      "fst f1 = tally (B @ first_death evs)" "idx_ok f1"
      using events_loop_tally [OF Cons.prems, of evs False] by auto
    have ad: "all_deaths ((ft, Inr evs) # fs) = qualifying evs @ all_deaths fs"
      and af: "all_first_deaths ((ft, Inr evs) # fs) = first_death evs @ all_first_deaths fs"
      by (simp_all add: all_deaths_def all_first_deaths_def events_of_def)
    from Cons.IH [OF l(2,3,4,5)] show ?thesis
      using p Inr l(1) by (auto simp: ad af split: sum.splits)
  qed
qed

lemma idx_ok_empty: "idx_ok ([], Map.empty)"
  by (simp add: idx_ok_def)

lemma tally_Nil: "tally [] = []"
  by (simp add: tally_def)

lemma aggregate_tally:
  "case aggregate fs of
     Inl e \<Rightarrow> \<exists>ft err. (ft, Inl err) \<in> set fs \<and> e = EventsForFight (Fight_ID ft) err
   | Inr (t', f') \<Rightarrow>
       list_all (\<lambda>(ft, r). \<not> isl r) fs
       \<and> fst t' = tally (all_deaths fs) \<and> idx_ok t'
       \<and> fst f' = tally (all_first_deaths fs) \<and> idx_ok f'"
proof -
  have "fst ([]::PlayerTop list, Map.empty::string \<rightharpoonup> nat) = tally []"
    by (simp add: tally_Nil)
  from fights_loop_tally [OF this idx_ok_empty this idx_ok_empty, of fs, unfolded append_Nil]
  show ?thesis unfolding aggregate_def .
qed

lemma insert_stable_insort:
  "insert_stable more_deaths x ys = insort_key death_key x ys"
  by (induction ys) (auto simp: more_deaths_def death_key_def)

lemma SliceStable_sort_key: "SliceStable more_deaths xs = sort_key death_key xs"
proof -
  have "insert_stable more_deaths = insort_key death_key"
    by (intro ext) (rule insert_stable_insort)
  then show ?thesis by (simp add: SliceStable_def sort_key_def)
qed

lemma truncate_top_take: "truncate_top xs = take 5 xs"
  by (simp add: truncate_top_def topN_def)

lemma sorted_wrt_key:
  "sorted_wrt (\<lambda>a b. sint (Value b) \<le> sint (Value a)) (sort_key death_key xs)"
proof -
  have "sorted (map death_key (sort_key death_key xs))" by (rule sorted_sort_key)
  then show ?thesis by (simp add: sorted_map death_key_def)
qed

lemma filter_Value_sort:
  "filter (\<lambda>p. Value p = c) (sort_key death_key xs) = filter (\<lambda>p. Value p = c) xs"
proof -
  have "(\<lambda>p. Value p = c) = (\<lambda>p. death_key p = - sint c)"
    by (intro ext) (auto simp: death_key_def intro: signed_word_eqI)
  then show ?thesis by (simp add: sort_key_stable)
qed

lemma Names_filter_tally:
  "map Name (filter (\<lambda>p. Value p = c) (tally S))
     = filter (\<lambda>n. word_of_nat (count_list S n) = c) (first_seen S)"
  by (simp add: tally_def filter_map comp_def)

lemma ranked_top:
  "ranked (truncate_top (SliceStable more_deaths (tally S))) S"
proof -
  let ?s = "sort_key death_key (tally S)"
  let ?ge = "\<lambda>a b. sint (Value b) \<le> sint (Value a)"
  have s: "sorted_wrt ?ge ?s" by (rule sorted_wrt_key)
  have 1: "sorted_wrt ?ge (take 5 ?s)" using s by (rule sorted_wrt_take)
  have 2: "length (take 5 ?s) \<le> 5" by simp
  have len: "length (take 5 ?s) = min 5 (length (first_seen S))"
    by (simp add: length_tally min.commute)
  have 3: "prefix (map Name (filter (\<lambda>p. Value p = c) (take 5 ?s)))
                  (filter (\<lambda>n. word_of_nat (count_list S n) = c) (first_seen S))" for c
  proof -
    have "prefix (take 5 ?s) ?s" by (rule take_is_prefix)
    then have "prefix (filter (\<lambda>p. Value p = c) (take 5 ?s)) (filter (\<lambda>p. Value p = c) ?s)"
      by (rule filter_mono_prefix)
    then have "prefix (map Name (filter (\<lambda>p. Value p = c) (take 5 ?s)))
                      (map Name (filter (\<lambda>p. Value p = c) (tally S)))"
      unfolding filter_Value_sort by (rule map_mono_prefix)
    then show ?thesis by (simp only: Names_filter_tally)
  qed
  have "sorted_wrt ?ge (take 5 ?s @ drop 5 ?s)" using s by simp
  then have 4: "\<forall>a\<in>set (take 5 ?s). \<forall>b\<in>set (drop 5 ?s). sint (Value b) \<le> sint (Value a)"
    unfolding sorted_wrt_append by blast
  have 5: "mset (take 5 ?s @ drop 5 ?s) = mset (tally S)" by simp
  show ?thesis
    unfolding ranked_def truncate_top_take SliceStable_sort_key
    using 1 2 len 3 4 5 by blast
qed

lemma TopDeathsForReport_tally:
  assumes "TopDeathsForReport (Inr fs) = Inr d"
  shows "TopDeaths d = truncate_top (SliceStable more_deaths (tally (all_deaths fs)))"
    and "TopFirstDeaths d = truncate_top (SliceStable more_deaths (tally (all_first_deaths fs)))"
    and "list_all (\<lambda>(ft, r). \<not> isl r) fs"
proof -
  have *: "TopDeaths d = truncate_top (SliceStable more_deaths (tally (all_deaths fs)))
     \<and> TopFirstDeaths d = truncate_top (SliceStable more_deaths (tally (all_first_deaths fs)))
     \<and> list_all (\<lambda>(ft, r). \<not> isl r) fs"
  proof (cases "fs = []")
    case True
    with assms have "d = \<lparr>TopDeaths = [], TopFirstDeaths = []\<rparr>"
      by (simp add: TopDeathsForReport_def)
    then show ?thesis using True
      by (simp add: all_deaths_def all_first_deaths_def events_of_def tally_Nil
          truncate_top_take SliceStable_def)
  next
    case False
    from assms False obtain td ti fd fi where
      a: "aggregate fs = Inr ((td, ti), (fd, fi))"
      and d: "d = \<lparr>TopDeaths = truncate_top (SliceStable more_deaths td),
                      TopFirstDeaths = truncate_top (SliceStable more_deaths fd)\<rparr>"
      by (auto simp: TopDeathsForReport_def split: sum.splits)
    from aggregate_tally [of fs] a
    have "td = tally (all_deaths fs)" "fd = tally (all_first_deaths fs)"
      "list_all (\<lambda>(ft, r). \<not> isl r) fs"
      by simp_all
    then show ?thesis using d by simp
  qed
  from * show "TopDeaths d = truncate_top (SliceStable more_deaths (tally (all_deaths fs)))"
    and "TopFirstDeaths d = truncate_top (SliceStable more_deaths (tally (all_first_deaths fs)))"
    and "list_all (\<lambda>(ft, r). \<not> isl r) fs"
    by simp_all
qed

text \<open>
  Claim C3. Whenever \<^verbatim>\<open>TopDeathsForReport\<close> returns leaderboards, each of the two is
  ranked for its stream of names (all qualifying deaths of the report, and the first
  deaths of its fights): sorted by signed count descending, players of equal count in
  the order in which they were first encountered, the entries dropped by the truncation
  none above an entry kept, and exactly five entries long, or as long as there are
  players when these are fewer: it is the first five entries of the stable sort of the
  accumulated counters.
\<close>

theorem leaderboards_ranked:
  assumes "TopDeathsForReport (Inr fs) = Inr d"
  shows "ranked (TopDeaths d) (all_deaths fs) \<and> ranked (TopFirstDeaths d) (all_first_deaths fs)
     \<and> TopDeaths d = take 5 (SliceStable more_deaths (tally (all_deaths fs)))
     \<and> TopFirstDeaths d = take 5 (SliceStable more_deaths (tally (all_first_deaths fs)))"
proof -
  note t = TopDeathsForReport_tally(1,2) [OF assms]
  show ?thesis
    unfolding t
    using ranked_top [of "all_deaths fs"] ranked_top [of "all_first_deaths fs"]
    by (simp add: truncate_top_take)
qed

lemma sint_counter:
  assumes "k < 2 ^ 63"
  shows "sint (word_of_nat k :: 64 word) = int k"
proof -
  have "int k < 2 ^ 63" using assms by (metis of_nat_less_iff of_nat_numeral of_nat_power)
  then show ?thesis by (simp add: signed_of_nat signed_take_bit_int_eq_self)
qed

lemma in_tally:
  assumes "p \<in> set (tally S)"
  shows "Name p \<in> set S \<and> Value p = word_of_nat (count_list S (Name p))"
proof -
  from assms obtain n where "n \<in> set (first_seen S)"
    and "p = \<lparr>Name = n, Value = word_of_nat (count_list S n)\<rparr>"
    by (auto simp: tally_def)
  then show ?thesis by (simp add: set_first_seen)
qed

lemma qualifying_nonempty: "n \<in> set (qualifying evs) \<Longrightarrow> n \<noteq> []"
  by (simp add: qualifying_def)

lemma all_deaths_nonempty: "n \<in> set (all_deaths fs) \<Longrightarrow> n \<noteq> []"
  by (auto simp: all_deaths_def dest: qualifying_nonempty)

lemma all_first_deaths_nonempty: "n \<in> set (all_first_deaths fs) \<Longrightarrow> n \<noteq> []"
  by (auto simp: all_first_deaths_def first_death_def dest: in_set_takeD qualifying_nonempty)

lemma length_all_first_deaths: "length (all_first_deaths fs) \<le> length (all_deaths fs)"
proof -
  have "length (concat (map first_death xs)) \<le> length (concat (map qualifying xs))" for xs
    by (induction xs) (auto simp: first_death_def)
  then show ?thesis by (simp add: all_deaths_def all_first_deaths_def)
qed

lemma board_entries:
  assumes S: "\<And>n. n \<in> set S \<Longrightarrow> n \<noteq> []" and len: "length S < 2 ^ 63"
  shows "(\<forall>p\<in>set (truncate_top (SliceStable more_deaths (tally S))).
            Name p \<noteq> [] \<and> 1 \<le> sint (Value p))
         \<and> distinct (map Name (truncate_top (SliceStable more_deaths (tally S))))"
proof -
  let ?s = "sort_key death_key (tally S)"
  have "Name p \<noteq> [] \<and> 1 \<le> sint (Value p)" if "p \<in> set (take 5 ?s)" for p
  proof -
    from that have "p \<in> set ?s" by (rule in_set_takeD)
    then have "p \<in> set (tally S)" by simp
    then have n: "Name p \<in> set S" and v: "Value p = word_of_nat (count_list S (Name p))"
      using in_tally by blast+
    have "count_list S (Name p) \<le> length S" by (rule count_le_length)
    then have "count_list S (Name p) < 2 ^ 63" using len by simp
    then have "sint (Value p) = int (count_list S (Name p))" using v by (simp add: sint_counter)
    moreover have "count_list S (Name p) \<noteq> 0" using n by (simp add: count_list_0_iff)
    ultimately show ?thesis using S [OF n] by simp
  qed
  moreover have "distinct (map Name (take 5 ?s))"
  proof -
    have "mset (map Name ?s) = mset (map Name (tally S))" by simp
    then have "distinct (map Name ?s) = distinct (map Name (tally S))"
      by (rule mset_eq_imp_distinct_iff)
    then have "distinct (map Name ?s)" by (simp add: map_Name_tally distinct_first_seen)
    then show ?thesis unfolding take_map [symmetric] by (rule distinct_take)
  qed
  ultimately show ?thesis
    unfolding truncate_top_take SliceStable_sort_key by blast
qed

text \<open>
  Claim C10. Every entry of both leaderboards has a non-empty name and a count of at
  least 1, and no name occurs twice in a leaderboard. The count is a 64-bit signed
  counter, so the bound on the number of qualifying deaths of the report (fewer than
  \<open>2 ^ 63\<close>) is what keeps it from wrapping around.
\<close>

theorem leaderboard_entries:
  assumes "TopDeathsForReport (Inr fs) = Inr d" and "length (all_deaths fs) < 2 ^ 63"
  shows "(\<forall>p\<in>set (TopDeaths d) \<union> set (TopFirstDeaths d). Name p \<noteq> [] \<and> 1 \<le> sint (Value p))
         \<and> distinct (map Name (TopDeaths d)) \<and> distinct (map Name (TopFirstDeaths d))"
proof -
  have l: "length (all_first_deaths fs) < 2 ^ 63"
    using assms(2) length_all_first_deaths [of fs] by simp
  note t = TopDeathsForReport_tally(1,2) [OF assms(1)]
  have a1: "\<And>n. n \<in> set (all_deaths fs) \<Longrightarrow> n \<noteq> []"
    by (rule all_deaths_nonempty)
  have a2: "\<And>n. n \<in> set (all_first_deaths fs) \<Longrightarrow> n \<noteq> []"
    by (rule all_first_deaths_nonempty)
  from board_entries [OF a1 assms(2)] board_entries [OF a2 l]
  show ?thesis unfolding t ball_Un by blast
qed

lemma count_for_tally:
  "count_for (tally S) p = (if p \<in> set S then Some (word_of_nat (count_list S p)) else None)"
proof -
  have "map (\<lambda>p. (Name p, Value p)) (tally S)
          = map (\<lambda>n. (n, word_of_nat (count_list S n))) (first_seen S)"
    by (simp add: tally_def comp_def)
  then show ?thesis
    by (simp add: count_for_def map_of_map_restrict restrict_map_def set_first_seen)
qed

lemma count_list_qualifying:
  "p \<noteq> [] \<Longrightarrow> count_list (qualifying evs) p = count_list (names_of evs) p"
  by (induction evs) (simp_all add: qualifying_def names_of_def)

lemma count_list_all_deaths:
  assumes "p \<noteq> []"
  shows "count_list (all_deaths fs) p = count_list (concat (map names_of (events_of fs))) p"
proof -
  have "count_list (concat (map qualifying xss)) p = count_list (concat (map names_of xss)) p" for xss
    by (induction xss) (simp_all add: count_list_append count_list_qualifying [OF assms])
  then show ?thesis by (simp add: all_deaths_def)
qed

lemma first_death_earliest:
  assumes "by_timestamp evs" "e \<in> set evs" "Target_Name (DeathEvent_Target e) \<noteq> []"
  shows "\<exists>e0\<in>set evs. first_death evs = [Target_Name (DeathEvent_Target e0)]
            \<and> Timestamp e0 \<le> Timestamp e"
  using assms
proof (induction evs)
  case Nil
  then show ?case by simp
next
  case (Cons a evs)
  show ?case
  proof (cases "Target_Name (DeathEvent_Target a) = []")
    case True
    then have "e \<in> set evs" using Cons.prems by auto
    moreover have "by_timestamp evs" using Cons.prems(1) by (simp add: by_timestamp_def)
    ultimately obtain e0 where "e0 \<in> set evs"
      "first_death evs = [Target_Name (DeathEvent_Target e0)]" "Timestamp e0 \<le> Timestamp e"
      using Cons.IH Cons.prems(3) by blast
    moreover have "first_death (a # evs) = first_death evs"
      using True by (simp add: first_death_def qualifying_def)
    ultimately show ?thesis by auto
  next
    case False
    then have "first_death (a # evs) = [Target_Name (DeathEvent_Target a)]"
      by (simp add: first_death_def qualifying_def)
    moreover have "Timestamp a \<le> Timestamp e"
      using Cons.prems(1,2) by (auto simp: by_timestamp_def)
    ultimately show ?thesis by auto
  qed
qed

text \<open>
  Claim C4. After the loops over the fights and their timestamp-ordered events, the
  overall counter holds for every non-empty name the number of events with that name
  (as a 64-bit counter) and nothing for the empty name or a name that never died; the
  first-death counter holds for every name the number of fights whose first event with
  a non-empty name has that name, so later deaths of a fight count only in the overall
  counter; and the event that takes a fight's first death is no later than any other
  event of the fight with a non-empty name.
\<close>

theorem aggregation_counts:
  assumes "aggregate fs = Inr ((totalDeaths, totalIdx), (firstDeaths, firstIdx))"
    and "list_all by_timestamp (events_of fs)"
  shows "count_for totalDeaths p =
           (if p = [] \<or> p \<notin> set (concat (map names_of (events_of fs))) then None
            else Some (word_of_nat (count_list (concat (map names_of (events_of fs))) p)))
         \<and> count_for firstDeaths p =
           (if p \<notin> set (all_first_deaths fs) then None
            else Some (word_of_nat (count_list (all_first_deaths fs) p)))
         \<and> [] \<notin> set (all_first_deaths fs)
         \<and> (\<forall>evs\<in>set (events_of fs). \<forall>e\<in>set evs. Target_Name (DeathEvent_Target e) \<noteq> [] \<longrightarrow>
               (\<exists>e0\<in>set evs. first_death evs = [Target_Name (DeathEvent_Target e0)]
                  \<and> Timestamp e0 \<le> Timestamp e))"
proof -
  from aggregate_tally [of fs] assms(1)
  have t: "totalDeaths = tally (all_deaths fs)" and f: "firstDeaths = tally (all_first_deaths fs)"
    by simp_all
  have 1: "count_for totalDeaths p =
           (if p = [] \<or> p \<notin> set (concat (map names_of (events_of fs))) then None
            else Some (word_of_nat (count_list (concat (map names_of (events_of fs))) p)))"
  proof (cases "p = []")
    case True
    then have "p \<notin> set (all_deaths fs)" using all_deaths_nonempty by blast
    then show ?thesis using True by (simp add: t count_for_tally)
  next
    case False
    have "(p \<in> set (all_deaths fs)) = (p \<in> set (concat (map names_of (events_of fs))))"
      using count_list_all_deaths [OF False, of fs]
      by (metis count_list_0_iff)
    then show ?thesis using False
      by (simp add: t count_for_tally count_list_all_deaths)
  qed
  have 2: "count_for firstDeaths p =
           (if p \<notin> set (all_first_deaths fs) then None
            else Some (word_of_nat (count_list (all_first_deaths fs) p)))"
    by (simp add: f count_for_tally)
  have 3: "[] \<notin> set (all_first_deaths fs)" using all_first_deaths_nonempty by blast
  have 4: "\<forall>evs\<in>set (events_of fs). \<forall>e\<in>set evs. Target_Name (DeathEvent_Target e) \<noteq> [] \<longrightarrow>
               (\<exists>e0\<in>set evs. first_death evs = [Target_Name (DeathEvent_Target e0)]
                  \<and> Timestamp e0 \<le> Timestamp e)"
    using assms(2) first_death_earliest by (simp add: list_all_iff)
  from 1 2 3 4 show ?thesis by blast
qed

lemma sample_aggregate:
  "aggregate sample_fights =
     Inr (([\<lparr>Name = ''Ann'', Value = 2\<rparr>, \<lparr>Name = ''Bob'', Value = 2\<rparr>, \<lparr>Name = ''Cid'', Value = 2\<rparr>],
           [''Ann'' \<mapsto> 0, ''Bob'' \<mapsto> 1, ''Cid'' \<mapsto> 2]),
          ([\<lparr>Name = ''Ann'', Value = 1\<rparr>, \<lparr>Name = ''Cid'', Value = 2\<rparr>],
           [''Ann'' \<mapsto> 0, ''Cid'' \<mapsto> 1]))"
  by (simp add: aggregate_def sample_fights_def death_def fight_def inc_def Let_def numeral_2_eq_2)

lemma sample_top:
  "TopDeathsForReport (Inr sample_fights) =
     Inr \<lparr>TopDeaths = [\<lparr>Name = ''Ann'', Value = 2\<rparr>, \<lparr>Name = ''Bob'', Value = 2\<rparr>,
                        \<lparr>Name = ''Cid'', Value = 2\<rparr>],
          TopFirstDeaths = [\<lparr>Name = ''Cid'', Value = 2\<rparr>, \<lparr>Name = ''Ann'', Value = 1\<rparr>]\<rparr>"
proof -
  have "length sample_fights \<noteq> 0" by (simp add: sample_fights_def)
  then show ?thesis
    by (simp add: TopDeathsForReport_def sample_aggregate SliceStable_def more_deaths_def
        truncate_top_def topN_def)
qed

lemma crowded_aggregate:
  "aggregate crowded_fights =
     Inr (([\<lparr>Name = ''A'', Value = 1\<rparr>, \<lparr>Name = ''B'', Value = 1\<rparr>, \<lparr>Name = ''C'', Value = 2\<rparr>,
            \<lparr>Name = ''D'', Value = 1\<rparr>, \<lparr>Name = ''E'', Value = 1\<rparr>, \<lparr>Name = ''F'', Value = 2\<rparr>,
            \<lparr>Name = ''G'', Value = 2\<rparr>],
           [''A'' \<mapsto> 0, ''B'' \<mapsto> 1, ''C'' \<mapsto> 2, ''D'' \<mapsto> 3, ''E'' \<mapsto> 4, ''F'' \<mapsto> 5,
            ''G'' \<mapsto> 6]),
          ([\<lparr>Name = ''A'', Value = 1\<rparr>, \<lparr>Name = ''G'', Value = 1\<rparr>],
           [''A'' \<mapsto> 0, ''G'' \<mapsto> 1]))"
  by (simp add: aggregate_def crowded_fights_def death_def fight_def inc_def Let_def
      eval_nat_numeral)

lemma crowded_top: "TopDeathsForReport (Inr crowded_fights) = Inr crowded_result"
proof -
  have "length crowded_fights \<noteq> 0" by (simp add: crowded_fights_def)
  then show ?thesis
    by (simp add: TopDeathsForReport_def crowded_aggregate SliceStable_def more_deaths_def
        truncate_top_def topN_def crowded_result_def)
qed

theorem leaderboards_ranked_witness:
  "TopDeathsForReport (Inr crowded_fights) = Inr crowded_result
   \<and> first_seen (all_deaths crowded_fights) = [''A'', ''B'', ''C'', ''D'', ''E'', ''F'', ''G'']
   \<and> map Name (TopDeaths crowded_result) = [''C'', ''F'', ''G'', ''A'', ''B'']
   \<and> ranked (TopDeaths crowded_result) (all_deaths crowded_fights)
   \<and> ranked (TopFirstDeaths crowded_result) (all_first_deaths crowded_fights)
   \<and> TopDeaths crowded_result = take 5 (SliceStable more_deaths (tally (all_deaths crowded_fights)))
   \<and> TopFirstDeaths crowded_result =
       take 5 (SliceStable more_deaths (tally (all_first_deaths crowded_fights)))"
proof -
  have f: "first_seen (all_deaths crowded_fights) = [''A'', ''B'', ''C'', ''D'', ''E'', ''F'', ''G'']"
    by (simp add: all_deaths_def events_of_def crowded_fights_def qualifying_def death_def)
  have n: "map Name (TopDeaths crowded_result) = [''C'', ''F'', ''G'', ''A'', ''B'']"
    by (simp add: crowded_result_def)
  from leaderboards_ranked [OF crowded_top] crowded_top f n show ?thesis by blast
qed

theorem leaderboard_entries_witness:
  "TopDeathsForReport (Inr sample_fights) =
     Inr \<lparr>TopDeaths = [\<lparr>Name = ''Ann'', Value = 2\<rparr>, \<lparr>Name = ''Bob'', Value = 2\<rparr>,
                        \<lparr>Name = ''Cid'', Value = 2\<rparr>],
          TopFirstDeaths = [\<lparr>Name = ''Cid'', Value = 2\<rparr>, \<lparr>Name = ''Ann'', Value = 1\<rparr>]\<rparr>
   \<and> length (all_deaths sample_fights) < 2 ^ 63
   \<and> list_all (\<lambda>p. Name p \<noteq> [] \<and> 1 \<le> sint (Value p))
         ([\<lparr>Name = ''Ann'', Value = 2\<rparr>, \<lparr>Name = ''Bob'', Value = 2\<rparr>,
           \<lparr>Name = ''Cid'', Value = 2\<rparr>] @
          [\<lparr>Name = ''Cid'', Value = 2\<rparr>, \<lparr>Name = ''Ann'', Value = 1\<rparr>])
   \<and> distinct [''Ann'', ''Bob'', ''Cid''] \<and> distinct [''Cid'', ''Ann'']"
proof -
  have l: "length (all_deaths sample_fights) < 2 ^ 63"
    by (simp add: all_deaths_def events_of_def sample_fights_def qualifying_def death_def)
  from leaderboard_entries [OF sample_top l] sample_top l show ?thesis by simp
qed

theorem aggregation_counts_witness:
  "aggregate sample_fights =
     Inr (([\<lparr>Name = ''Ann'', Value = 2\<rparr>, \<lparr>Name = ''Bob'', Value = 2\<rparr>, \<lparr>Name = ''Cid'', Value = 2\<rparr>],
           [''Ann'' \<mapsto> 0, ''Bob'' \<mapsto> 1, ''Cid'' \<mapsto> 2]),
          ([\<lparr>Name = ''Ann'', Value = 1\<rparr>, \<lparr>Name = ''Cid'', Value = 2\<rparr>],
           [''Ann'' \<mapsto> 0, ''Cid'' \<mapsto> 1]))
   \<and> list_all by_timestamp (events_of sample_fights)
   \<and> count_for [\<lparr>Name = ''Ann'', Value = 2\<rparr>, \<lparr>Name = ''Bob'', Value = 2\<rparr>,
                  \<lparr>Name = ''Cid'', Value = 2\<rparr>] ''Bob'' = Some 2
   \<and> count_for [\<lparr>Name = ''Ann'', Value = 2\<rparr>, \<lparr>Name = ''Bob'', Value = 2\<rparr>,
                  \<lparr>Name = ''Cid'', Value = 2\<rparr>] [] = None
   \<and> count_for [\<lparr>Name = ''Ann'', Value = 1\<rparr>, \<lparr>Name = ''Cid'', Value = 2\<rparr>] ''Cid'' = Some 2
   \<and> count_for [\<lparr>Name = ''Ann'', Value = 1\<rparr>, \<lparr>Name = ''Cid'', Value = 2\<rparr>] ''Bob'' = None"
proof -
  have e: "events_of sample_fights =
      [[death 10 ''Ann'', death 20 ''Bob'', death 30 ''Bob''],
       [death 15 [], death 25 ''Cid'', death 35 ''Ann''], [death 5 ''Cid'']]"
    by (simp add: events_of_def sample_fights_def)
  have s: "list_all by_timestamp (events_of sample_fights)"
    by (simp add: e by_timestamp_def death_def)
  have n: "concat (map names_of (events_of sample_fights)) =
      [''Ann'', ''Bob'', ''Bob'', [], ''Cid'', ''Ann'', ''Cid'']"
    by (simp add: e names_of_def death_def)
  have f: "all_first_deaths sample_fights = [''Ann'', ''Cid'', ''Cid'']"
    by (simp add: all_first_deaths_def e first_death_def qualifying_def death_def)
  from aggregation_counts [OF sample_aggregate s, of "''Bob''"]
    aggregation_counts [OF sample_aggregate s, of "[]"]
    aggregation_counts [OF sample_aggregate s, of "''Cid''"]
    sample_aggregate s
  show ?thesis by (simp add: n f)
qed

section \<open>Properties of the pagination\<close>

lemma data_loop_eq:
  "data_loop unm raws (d, l) =
     (d @ List.map_filter unm raws,
      l @ map (\<lambda>r. WarnUnmarshal) (filter (\<lambda>r. unm r = None) raws))"
  by (induction raws arbitrary: d l) (auto simp: List.map_filter_simps split: option.splits)

lemma page_loop_run:
  "\<exists>new nl.
     page_loop query unm deaths ts k logs trace =
       (trace @ new, logs @ nl,
        (case snd (last new) of Inl err \<Rightarrow> Inl err
         | Inr evs \<Rightarrow> Inr (deaths @ concat (map (parsed unm) new))))
     \<and> new \<noteq> [] \<and> fst (hd new) = ts \<and> follows_cursor new \<and> served query k new
     \<and> k + length new \<le> max maxPages (Suc k)
     \<and> (case snd (last new) of Inl err \<Rightarrow> WarnMaxPages maxPages \<notin> set nl
         | Inr evs \<Rightarrow>
             (NextPageTimestamp evs = None \<or> maxPages \<le> k + length new)
             \<and> (WarnMaxPages maxPages \<in> set nl) = (NextPageTimestamp evs \<noteq> None))"
proof (induction query unm deaths ts k logs trace rule: page_loop.induct)
  case (1 query unm deaths ts k logs trace)
  show ?case
  proof (cases "query k ts")
    case (Inl err)
    show ?thesis
      apply (rule exI [of _ "[(ts, Inl err)]"])
      apply (rule exI [of _ "[]"])
      using Inl by simp
  next
    case (Inr evs)
    let ?d = "deaths @ List.map_filter unm (Data evs)"
    let ?wl = "map (\<lambda>r. WarnUnmarshal) (filter (\<lambda>r. unm r = None) (Data evs))"
    have dl: "data_loop unm (Data evs) (deaths, logs) = (?d, logs @ ?wl)"
      by (rule data_loop_eq)
    show ?thesis
    proof (cases "NextPageTimestamp evs")
      case None
      show ?thesis
        apply (rule exI [of _ "[(ts, Inr evs)]"])
        apply (rule exI [of _ "?wl"])
        using Inr None dl by (auto simp: parsed_def)
    next
      case (Some c)
      show ?thesis
      proof (cases "maxPages \<le> k + 1")
        case True
        show ?thesis
          apply (rule exI [of _ "[(ts, Inr evs)]"])
          apply (rule exI [of _ "?wl @ [WarnMaxPages maxPages]"])
          using Inr Some dl True by (auto simp: parsed_def)
      next
        case False
        from "1.IH" [OF Inr dl [symmetric] Some False]
        obtain new nl where
          run: "page_loop query unm ?d (Some c) (k + 1) (logs @ ?wl) (trace @ [(ts, Inr evs)]) =
             ((trace @ [(ts, Inr evs)]) @ new, (logs @ ?wl) @ nl,
              (case snd (last new) of Inl err \<Rightarrow> Inl err
               | Inr evs \<Rightarrow> Inr (?d @ concat (map (parsed unm) new))))"
          and ne: "new \<noteq> []" and hd: "fst (hd new) = Some c"
          and fc: "follows_cursor new" and sv: "served query (k + 1) new"
          and len: "k + 1 + length new \<le> max maxPages (Suc (k + 1))"
          and fin: "(case snd (last new) of Inl err \<Rightarrow> WarnMaxPages maxPages \<notin> set nl
             | Inr evs \<Rightarrow>
                 (NextPageTimestamp evs = None \<or> maxPages \<le> k + 1 + length new)
                 \<and> (WarnMaxPages maxPages \<in> set nl) = (NextPageTimestamp evs \<noteq> None))"
          by blast
        obtain c2 r2 rest where new: "new = (c2, r2) # rest" using ne by (cases new) auto
        have c2: "c2 = Some c" using hd new by simp
        have eq: "page_loop query unm deaths ts k logs trace =
            page_loop query unm ?d (Some c) (k + 1) (logs @ ?wl) (trace @ [(ts, Inr evs)])"
          using Inr Some dl False by simp
        have wl: "WarnMaxPages maxPages \<notin> set ?wl" by auto
        let ?new = "(ts, Inr evs) # new"
        have L: "last ?new = last new" using ne by simp
        have F: "follows_cursor ?new" using new c2 fc Some by simp
        have S: "served query k ?new" using sv Inr by simp
        have C: "deaths @ concat (map (parsed unm) ?new) = ?d @ concat (map (parsed unm) new)"
          by (simp add: parsed_def)
        have Len: "k + length ?new \<le> max maxPages (Suc k)" using len False by simp
        have Len2: "(maxPages \<le> k + length ?new) = (maxPages \<le> k + 1 + length new)" by simp
        have W: "(WarnMaxPages maxPages \<in> set (?wl @ nl)) = (WarnMaxPages maxPages \<in> set nl)"
          using wl by simp
        have "page_loop query unm deaths ts k logs trace =
            (trace @ ?new, logs @ (?wl @ nl),
             (case snd (last ?new) of Inl err \<Rightarrow> Inl err
              | Inr evs \<Rightarrow> Inr (deaths @ concat (map (parsed unm) ?new))))"
          unfolding eq run L C by simp
        moreover have "?new \<noteq> []" "fst (hd ?new) = ts" by simp_all
        moreover have "(case snd (last ?new) of Inl err \<Rightarrow> WarnMaxPages maxPages \<notin> set (?wl @ nl)
             | Inr evs \<Rightarrow>
                 (NextPageTimestamp evs = None \<or> maxPages \<le> k + length ?new)
                 \<and> (WarnMaxPages maxPages \<in> set (?wl @ nl)) = (NextPageTimestamp evs \<noteq> None))"
          unfolding L W Len2 using fin .
        ultimately show ?thesis using F S Len by blast
      qed
    qed
  qed
qed

lemma timestamp_less_order: "strict_weak_order timestamp_less"
  by (auto simp: strict_weak_order_def timestamp_less_def)

text \<open>
  The insertion sort \<open>SliceStable\<close> meets the contract of \<open>sort.Slice\<close>: a stable
  sort is in particular a sort.
\<close>

lemma mset_insert_stable: "mset (insert_stable lt x ys) = add_mset x (mset ys)"
  by (induction ys) simp_all

lemma set_insert_stable: "set (insert_stable lt x ys) = insert x (set ys)"
  by (induction ys) auto

lemma sorted_insert_stable:
  assumes o: "strict_weak_order lt" and s: "sorted_wrt (\<lambda>a b. \<not> lt b a) ys"
  shows "sorted_wrt (\<lambda>a b. \<not> lt b a) (insert_stable lt x ys)"
  using s
proof (induction ys)
  case Nil
  show ?case by simp
next
  case (Cons y ys)
  have irr: "\<And>a. \<not> lt a a" and tr: "\<And>a b c. lt a b \<Longrightarrow> lt b c \<Longrightarrow> lt a c"
    and nt: "\<And>a b c. \<not> lt a b \<Longrightarrow> \<not> lt b c \<Longrightarrow> \<not> lt a c"
    using o unfolding strict_weak_order_def by blast+
  have tail: "\<And>z. z \<in> set ys \<Longrightarrow> \<not> lt z y" and srt: "sorted_wrt (\<lambda>a b. \<not> lt b a) ys"
    using Cons.prems by simp_all
  show ?case
  proof (cases "lt y x")
    case True
    have "\<not> lt x y" using True irr tr by blast
    then have "\<And>z. z \<in> set (insert_stable lt x ys) \<Longrightarrow> \<not> lt z y"
      using tail by (auto simp: set_insert_stable)
    then show ?thesis using True Cons.IH [OF srt] by simp
  next
    case False
    have "\<And>z. z \<in> set ys \<Longrightarrow> \<not> lt z x" using tail False nt by blast
    then show ?thesis using False Cons.prems by simp
  qed
qed

lemma SliceStable_contract: "sort_contract SliceStable"
proof -
  have m: "mset (SliceStable lt xs) = mset xs" for lt :: "'a \<Rightarrow> 'a \<Rightarrow> bool" and xs
    by (induction xs) (simp_all add: SliceStable_def mset_insert_stable)
  have s: "sorted_wrt (\<lambda>a b. \<not> lt b a) (SliceStable lt xs)"
    if "strict_weak_order lt" for lt :: "'a \<Rightarrow> 'a \<Rightarrow> bool" and xs
    by (induction xs) (simp_all add: SliceStable_def sorted_insert_stable [OF that])
  show ?thesis unfolding sort_contract_def using m s by blast
qed

lemma contract_by_timestamp:
  assumes "sort_contract sortSlice"
  shows "by_timestamp (sortSlice timestamp_less xs) \<and> mset (sortSlice timestamp_less xs) = mset xs"
proof -
  have "mset (sortSlice timestamp_less xs) = mset xs
      \<and> sorted_wrt (\<lambda>a b. \<not> timestamp_less b a) (sortSlice timestamp_less xs)"
    using assms timestamp_less_order unfolding sort_contract_def by blast
  moreover have "(\<lambda>a b. \<not> timestamp_less b a) = (\<lambda>a b. Timestamp a \<le> Timestamp b)"
    by (intro ext) (auto simp: timestamp_less_def)
  ultimately show ?thesis by (simp add: by_timestamp_def)
qed

text \<open>
  Claim C2. A call of \<^verbatim>\<open>getDeathEvents\<close> issues at least one and at most 10 requests;
  the first carries no cursor and each later one the cursor returned by the response
  before it. The requests end with a failed request (the error is returned), with a
  page without cursor, or with the tenth page; when the tenth page still has a cursor
  the cap warning is logged and the events fetched so far are returned, not an error.
  Records that do not parse are skipped. The list returned is sorted by timestamp
  ascending and is a permutation of the parseable events of all fetched pages, whatever
  order the pages delivered them in: this follows from the comparison that the function
  hands to \<^verbatim>\<open>sort.Slice\<close> and from the contract of that library sort alone.
\<close>

theorem getDeathEvents_pagination:
  assumes "sort_contract sortSlice"
    and "getDeathEvents sortSlice query unmarshal = (trace, logs, res)"
  shows "trace \<noteq> [] \<and> length trace \<le> 10 \<and> fst (hd trace) = None
     \<and> follows_cursor trace \<and> served query 0 trace
     \<and> (case snd (last trace) of
          Inl err \<Rightarrow> res = Inl err \<and> WarnMaxPages 10 \<notin> set logs
        | Inr evs \<Rightarrow>
            (NextPageTimestamp evs = None \<or> length trace = 10)
            \<and> (WarnMaxPages 10 \<in> set logs) = (NextPageTimestamp evs \<noteq> None)
            \<and> (\<exists>deaths. res = Inr deaths \<and> by_timestamp deaths
                  \<and> mset deaths = mset (concat (map (parsed unmarshal) trace))))"
proof -
  obtain new nl where
    run: "page_loop query unmarshal [] None 0 [] [] =
       ([] @ new, [] @ nl,
        (case snd (last new) of Inl err \<Rightarrow> Inl err
         | Inr evs \<Rightarrow> Inr ([] @ concat (map (parsed unmarshal) new))))"
    and ne: "new \<noteq> []" and hd: "fst (hd new) = None"
    and fc: "follows_cursor new" and sv: "served query 0 new"
    and len: "0 + length new \<le> max maxPages (Suc 0)"
    and fin: "(case snd (last new) of Inl err \<Rightarrow> WarnMaxPages maxPages \<notin> set nl
       | Inr evs \<Rightarrow>
           (NextPageTimestamp evs = None \<or> maxPages \<le> 0 + length new)
           \<and> (WarnMaxPages maxPages \<in> set nl) = (NextPageTimestamp evs \<noteq> None))"
    using page_loop_run [of query unmarshal "[]" None 0 "[]" "[]"] by blast
  have t: "trace = new" and l: "logs = nl"
    and r: "res = (case snd (last new) of Inl err \<Rightarrow> Inl err
         | Inr evs \<Rightarrow> Inr (sortSlice timestamp_less (concat (map (parsed unmarshal) new))))"
    using assms(2) run by (auto simp: getDeathEvents_def split: sum.splits)
  have len10: "length new \<le> 10" using len by (simp add: maxPages_def)
  have srt: "by_timestamp (sortSlice timestamp_less xs)
      \<and> mset (sortSlice timestamp_less xs) = mset xs" for xs
    by (rule contract_by_timestamp [OF assms(1)])
  have "(case snd (last new) of
          Inl err \<Rightarrow> res = Inl err \<and> WarnMaxPages 10 \<notin> set nl
        | Inr evs \<Rightarrow>
            (NextPageTimestamp evs = None \<or> length new = 10)
            \<and> (WarnMaxPages 10 \<in> set nl) = (NextPageTimestamp evs \<noteq> None)
            \<and> (\<exists>deaths. res = Inr deaths \<and> by_timestamp deaths
                  \<and> mset deaths = mset (concat (map (parsed unmarshal) new))))"
  proof (cases "snd (last new)")
    case (Inl err)
    then show ?thesis using fin r by (simp add: maxPages_def)
  next
    case (Inr evs)
    then show ?thesis using fin r len10 srt by (auto simp: maxPages_def)
  qed
  then show ?thesis using ne hd fc sv len10 unfolding t l by blast
qed

lemma sample_run:
  "getDeathEvents SliceStable sample_gql sample_unmarshal =
     (sample_trace, [WarnUnmarshal],
      Inr [death 10 ''Ann'', death 20 ''Bob'', death 30 ''Cid''])"
  by (simp add: getDeathEvents_def sample_gql_def sample_unmarshal_def maxPages_def death_def
      sample_trace_def SliceStable_def timestamp_less_def)

text \<open>A server that always returns a cursor is asked ten times, and the call succeeds.\<close>

lemma endless_run:
  "getDeathEvents SliceStable endless_gql sample_unmarshal =
     (map (\<lambda>k. (if k = 0 then None else Some (of_nat (k - 1)),
                  Inr \<lparr>Data = [], NextPageTimestamp = Some (of_nat k)\<rparr>)) [0..<10],
      [WarnMaxPages 10], Inr [])"
  by (simp add: getDeathEvents_def endless_gql_def maxPages_def upt_rec SliceStable_def)

theorem getDeathEvents_pagination_witness:
  "sort_contract (SliceStable :: (DeathEvent \<Rightarrow> DeathEvent \<Rightarrow> bool) \<Rightarrow> _)
   \<and> getDeathEvents SliceStable sample_gql sample_unmarshal =
       (sample_trace, [WarnUnmarshal],
        Inr [death 10 ''Ann'', death 20 ''Bob'', death 30 ''Cid''])
   \<and> length sample_trace \<le> 10 \<and> fst (hd sample_trace) = None
   \<and> follows_cursor sample_trace \<and> served sample_gql 0 sample_trace
   \<and> WarnMaxPages 10 \<notin> set [WarnUnmarshal]
   \<and> by_timestamp [death 10 ''Ann'', death 20 ''Bob'', death 30 ''Cid'']
   \<and> mset [death 10 ''Ann'', death 20 ''Bob'', death 30 ''Cid''] =
       mset (concat (map (parsed sample_unmarshal) sample_trace))"
proof -
  have l: "snd (last sample_trace) = Inr \<lparr>Data = [''e2''], NextPageTimestamp = None\<rparr>"
    by (simp add: sample_trace_def)
  from getDeathEvents_pagination [OF SliceStable_contract sample_run]
    SliceStable_contract sample_run
  show ?thesis by (simp add: l)
qed

section \<open>Properties of the token lifecycle\<close>

lemma refreshToken_cases:
  "(fresh c now \<longrightarrow> refreshToken c now ex = (c, None, 0))
   \<and> (\<not> fresh c now \<longrightarrow>
        (case getToken ex of
           Inl err \<Rightarrow> refreshToken c now ex = (c, Some err, 1)
         | Inr (tok, exp) \<Rightarrow>
             refreshToken c now ex = (c\<lparr>token := tok, expiresAt := exp\<rparr>, None, 1)))"
  by (simp add: refreshToken_def split: sum.splits)

text \<open>
  Claim C6. \<^verbatim>\<open>ensureToken\<close> with a non-empty token that expires more than 60 seconds
  after the current time returns at once: no error, no credential exchange, the client
  unchanged. Otherwise it is \<^verbatim>\<open>refreshToken\<close>, which tests the same condition on the
  client it finds under the write lock: when it holds, nothing is exchanged; when it
  fails, exactly one exchange is made, whose failure is returned as the error with the
  client unchanged and whose success stores the new token and expiry. So at most one
  exchange is made, and one is made exactly when the condition fails at both tests.
\<close>

theorem ensureToken_refreshes_only_when_stale:
  "(fresh c now \<longrightarrow> ensureToken c now locked now' ex = (c, None, 0))
   \<and> (\<not> fresh c now \<longrightarrow> ensureToken c now locked now' ex = refreshToken locked now' ex)
   \<and> (fresh locked now' \<longrightarrow> refreshToken locked now' ex = (locked, None, 0))
   \<and> (\<not> fresh locked now' \<longrightarrow>
        (case getToken ex of
           Inl err \<Rightarrow> refreshToken locked now' ex = (locked, Some err, 1)
         | Inr (tok, exp) \<Rightarrow>
             refreshToken locked now' ex = (locked\<lparr>token := tok, expiresAt := exp\<rparr>, None, 1)))
   \<and> snd (snd (ensureToken c now locked now' ex)) \<le> 1
   \<and> (snd (snd (ensureToken c now locked now' ex)) = 1) = (\<not> fresh c now \<and> \<not> fresh locked now')
   \<and> fresh c now = (token c \<noteq> [] \<and> now + 60 * 1000000000 < expiresAt c)"
  using refreshToken_cases [of locked now' ex]
  by (auto simp: ensureToken_def fresh_def tokenSkew_def split: sum.splits)

theorem ensureToken_refreshes_only_when_stale_witness:
  "fresh sample_client 0 \<and> \<not> fresh stale_client 0
   \<and> ensureToken sample_client 0 sample_client 0 sample_exchange = (sample_client, None, 0)
   \<and> ensureToken stale_client 0 sample_client 0 sample_exchange = (sample_client, None, 0)
   \<and> ensureToken stale_client 0 stale_client 0 sample_exchange =
        (\<lparr>token = ''T2'', expiresAt = 3601 * 1000000000\<rparr>, None, 1)
   \<and> ensureToken stale_client 0 stale_client 0 failed_exchange =
        (stale_client, Some (OAuthFailed 503 ''down''), 1)"
  using ensureToken_refreshes_only_when_stale [of sample_client 0 sample_client 0 sample_exchange]
    ensureToken_refreshes_only_when_stale [of stale_client 0 sample_client 0 sample_exchange]
    ensureToken_refreshes_only_when_stale [of stale_client 0 stale_client 0 sample_exchange]
    ensureToken_refreshes_only_when_stale [of stale_client 0 stale_client 0 failed_exchange]
  by (simp add: sample_client_def stale_client_def sample_exchange_def failed_exchange_def
      getToken_def IsError_def wrap64_def)

section \<open>Properties of the query execution\<close>

text \<open>A call sends at most two requests, and a second one only after a 401.\<close>

lemma gql_requests:
  "length (fst (snd (snd (gql e c)))) \<le> 2"
  by (simp add: gql_def split: prod.splits option.splits http.splits)

text \<open>
  Claim C5. The claim has the client force a token refresh when the first response is a
  401. The code calls \<^verbatim>\<open>refreshToken\<close>, which exchanges credentials only when the
  token is empty or expires within 60 seconds by the client's own clock. Here the
  server has revoked the token \<open>T1\<close>, which the client still holds as valid for an
  hour: after the 401 no credential exchange is made, the request is sent again with
  the same token, and the second 401 is returned as the error, although the token
  endpoint would have issued a token that the server accepts.
\<close>

theorem gql_401_without_exchange:
  "gql revoked_env sample_client =
     (sample_client, Inl (GraphqlStatus 401 ''unauthorized''), [''T1'', ''T1''], 0)"
  by (simp add: gql_def revoked_env_def sample_client_def ensureToken_def refreshToken_def
      fresh_def tokenSkew_def decode_def IsError_def)

section \<open>Properties of the change detector\<close>

lemma cache_Get_values:
  assumes "cache_Get touch now c k = (c1, item)"
  shows "map_option item_value (c1 k') = map_option item_value (c k')"
  using assms by (auto simp: cache_Get_def split: option.splits if_splits)

lemma cache_Get_miss:
  assumes "cache_Get touch now c k = (c1, None)"
  shows "c1 = c"
  using assms by (auto simp: cache_Get_def split: option.splits if_splits)

lemma isOutdated_iff:
  "isOutdated now r = (15 * 60 * 1000000000 < now - EndTime r * 1000000)"
  by (simp add: isOutdated_def Since_def saturate_def UnixMilli_def)

lemma fetch_and_send_ok:
  assumes "TopDeathsForReport (bossFights e) = Inr d"
  shows "fetch_and_send server e r live c1 s =
     s\<lparr>handled := (if ctx_done e then handled s else handled s @ [stats_event server live r d]),
       reportsCache := cache_Set (now_set e) c1 (Code r)
         \<lparr>code = Code r, endTime = EndTime r, isLive = live\<rparr>\<rparr>"
  using assms by (simp add: fetch_and_send_def sendUpdate_def)

lemma fetch_and_send_failed:
  assumes "TopDeathsForReport (bossFights e) = Inl err"
  shows "fetch_and_send server e r live c1 s = s\<lparr>reportsCache := c1\<rparr>"
  using assms by (simp add: fetch_and_send_def)

lemma no_spurious_emit:
  assumes "cache_Get touch (now_get e) (reportsCache s) (Code r) = (c, Some cr)"
    and "endTime cr = EndTime r" and "isLive cr = (\<not> isOutdated (now_since e) r)"
  shows "handled (check_report touch server e r s) = handled s"
  using assms by (simp add: check_report_def Let_def)

text \<open>
  Claim C1 (as amended). "Outdated" is: more than 15 minutes lie between the report's end
  time and the clock. A report not found in the cache and outdated is skipped: nothing is
  sent, nothing written. In the three sending cases (not found and not outdated, with
  liveness true; found with another end time, with liveness not-outdated; found with the
  same end time, cached live and outdated, with liveness false) the outcome depends on
  the fetch of the statistics: when it succeeds the entry is written with the report's
  end time and that liveness, and the update with that liveness is sent unless the
  context of the cycle is done; when it fails nothing is sent and nothing written. A
  report found with the same end time that is not both cached live and outdated
  changes nothing (a lookup may renew the time-to-live of the entry, never its value).
  So no update is sent for a report found with the same end time and the same
  liveness, in whatever state a sequence of cycles has left the watcher.
\<close>

theorem check_report_table:
  assumes g: "cache_Get touch (now_get e) (reportsCache s) (Code r) = (c1, item)"
  shows
    "(\<forall>k. map_option item_value (c1 k) = map_option item_value (reportsCache s k))
     \<and> isOutdated (now_since e) r = (15 * 60 * 1000000000 < now_since e - EndTime r * 1000000)
     \<and> (item = None \<and> isOutdated (now_since e) r \<longrightarrow> check_report touch server e r s = s)
     \<and> (item = None \<and> \<not> isOutdated (now_since e) r
          \<and> TopDeathsForReport (bossFights e) = Inr d \<longrightarrow>
          check_report touch server e r s =
            s\<lparr>handled := (if ctx_done e then handled s
                          else handled s @ [stats_event server True r d]),
              reportsCache := cache_Set (now_set e) c1 (Code r)
                \<lparr>code = Code r, endTime = EndTime r, isLive = True\<rparr>\<rparr>)
     \<and> (item = Some cr \<and> endTime cr \<noteq> EndTime r
          \<and> TopDeathsForReport (bossFights e) = Inr d \<longrightarrow>
          check_report touch server e r s =
            s\<lparr>handled := (if ctx_done e then handled s
                          else handled s @ [stats_event server (\<not> isOutdated (now_since e) r) r d]),
              reportsCache := cache_Set (now_set e) c1 (Code r)
                \<lparr>code = Code r, endTime = EndTime r, isLive = \<not> isOutdated (now_since e) r\<rparr>\<rparr>)
     \<and> (item = Some cr \<and> endTime cr = EndTime r \<and> isLive cr \<and> isOutdated (now_since e) r
          \<and> TopDeathsForReport (bossFights e) = Inr d \<longrightarrow>
          check_report touch server e r s =
            s\<lparr>handled := (if ctx_done e then handled s
                          else handled s @ [stats_event server False r d]),
              reportsCache := cache_Set (now_set e) c1 (Code r)
                \<lparr>code = Code r, endTime = EndTime r, isLive = False\<rparr>\<rparr>)
     \<and> (item = Some cr \<and> endTime cr = EndTime r \<and> \<not> (isLive cr \<and> isOutdated (now_since e) r) \<longrightarrow>
          check_report touch server e r s = s\<lparr>reportsCache := c1\<rparr>)
     \<and> (TopDeathsForReport (bossFights e) = Inl err \<longrightarrow>
          check_report touch server e r s = s\<lparr>reportsCache := c1\<rparr>)
     \<and> (item = Some cr \<and> endTime cr = EndTime r \<and> isLive cr = (\<not> isOutdated (now_since e) r) \<longrightarrow>
          handled (check_report touch server e r s) = handled s)
     \<and> (\<forall>cyc s0 c v.
          cache_Get touch (now_get e) (reportsCache (cycles touch server cyc s0)) (Code r) = (c, Some v)
          \<and> endTime v = EndTime r \<and> isLive v = (\<not> isOutdated (now_since e) r) \<longrightarrow>
          handled (check_report touch server e r (cycles touch server cyc s0)) =
            handled (cycles touch server cyc s0))"
proof -
  have v: "\<forall>k. map_option item_value (c1 k) = map_option item_value (reportsCache s k)"
    using cache_Get_values [OF g] by blast
  have miss: "item = None \<Longrightarrow> c1 = reportsCache s"
    using g cache_Get_miss by blast
  have 1: "item = None \<and> isOutdated (now_since e) r \<longrightarrow> check_report touch server e r s = s"
    using g miss by (simp add: check_report_def Let_def)
  have 2: "item = None \<and> \<not> isOutdated (now_since e) r
          \<and> TopDeathsForReport (bossFights e) = Inr d \<longrightarrow>
          check_report touch server e r s =
            s\<lparr>handled := (if ctx_done e then handled s
                          else handled s @ [stats_event server True r d]),
              reportsCache := cache_Set (now_set e) c1 (Code r)
                \<lparr>code = Code r, endTime = EndTime r, isLive = True\<rparr>\<rparr>"
    using g by (simp add: check_report_def fetch_and_send_ok Let_def)
  have 3: "item = Some cr \<and> endTime cr \<noteq> EndTime r
          \<and> TopDeathsForReport (bossFights e) = Inr d \<longrightarrow>
          check_report touch server e r s =
            s\<lparr>handled := (if ctx_done e then handled s
                          else handled s @ [stats_event server (\<not> isOutdated (now_since e) r) r d]),
              reportsCache := cache_Set (now_set e) c1 (Code r)
                \<lparr>code = Code r, endTime = EndTime r, isLive = \<not> isOutdated (now_since e) r\<rparr>\<rparr>"
    using g by (simp add: check_report_def fetch_and_send_ok Let_def)
  have 4: "item = Some cr \<and> endTime cr = EndTime r \<and> isLive cr \<and> isOutdated (now_since e) r
          \<and> TopDeathsForReport (bossFights e) = Inr d \<longrightarrow>
          check_report touch server e r s =
            s\<lparr>handled := (if ctx_done e then handled s
                          else handled s @ [stats_event server False r d]),
              reportsCache := cache_Set (now_set e) c1 (Code r)
                \<lparr>code = Code r, endTime = EndTime r, isLive = False\<rparr>\<rparr>"
    using g by (simp add: check_report_def fetch_and_send_ok Let_def)
  have 5: "item = Some cr \<and> endTime cr = EndTime r \<and> \<not> (isLive cr \<and> isOutdated (now_since e) r) \<longrightarrow>
          check_report touch server e r s = s\<lparr>reportsCache := c1\<rparr>"
    using g by (simp add: check_report_def Let_def)
  have 6: "TopDeathsForReport (bossFights e) = Inl err \<longrightarrow>
          check_report touch server e r s = s\<lparr>reportsCache := c1\<rparr>"
    using g miss by (cases item) (simp_all add: check_report_def fetch_and_send_failed Let_def)
  have 7: "item = Some cr \<and> endTime cr = EndTime r \<and> isLive cr = (\<not> isOutdated (now_since e) r) \<longrightarrow>
          handled (check_report touch server e r s) = handled s"
    using 5 by auto
  have 8: "\<forall>cyc s0 c v.
          cache_Get touch (now_get e) (reportsCache (cycles touch server cyc s0)) (Code r) = (c, Some v)
          \<and> endTime v = EndTime r \<and> isLive v = (\<not> isOutdated (now_since e) r) \<longrightarrow>
          handled (check_report touch server e r (cycles touch server cyc s0)) =
            handled (cycles touch server cyc s0)"
    using no_spurious_emit by blast
  from v isOutdated_iff [of "now_since e" r] 1 2 3 4 5 6 7 8 show ?thesis by blast
qed

lemma no_fights: "TopDeathsForReport (Inr []) = Inr no_details"
  by (simp add: TopDeathsForReport_def no_details_def)

lemma abc_simps: "Code (abc t) = ''ABC''" "EndTime (abc t) = t"
  by (simp_all add: abc_def sample_report_def)

lemma env_at_simps:
  "now_since (env_at n f d) = n" "now_get (env_at n f d) = n" "now_set (env_at n f d) = n"
  "bossFights (env_at n f d) = f" "ctx_done (env_at n f d) = d"
  by (simp_all add: env_at_def)

lemma live_state_Get:
  "0 \<le> n \<Longrightarrow> n \<le> ttl \<Longrightarrow>
   cache_Get False n (reportsCache live_state) ''ABC'' =
     (reportsCache live_state, Some \<lparr>code = ''ABC'', endTime = 0, isLive = True\<rparr>)"
  by (simp add: cache_Get_def live_state_def cache_Set_def)

theorem check_report_table_witness:
  "cache_Get False minute (reportsCache empty_state) ''ABC'' = (Map.empty, None)
   \<and> \<not> isOutdated minute (abc 0)
   \<and> check_report False sample_server (env_at minute (Inr []) False) (abc 0) empty_state =
       empty_state
         \<lparr>handled := handled empty_state @ [stats_event sample_server True (abc 0) no_details],
          reportsCache := cache_Set minute Map.empty ''ABC''
            \<lparr>code = ''ABC'', endTime = 0, isLive = True\<rparr>\<rparr>
   \<and> isOutdated (20 * minute) (abc 0)
   \<and> check_report False sample_server (env_at (20 * minute) (Inr []) False) (abc 0) live_state =
       live_state
         \<lparr>handled := handled live_state @ [stats_event sample_server False (abc 0) no_details],
          reportsCache := cache_Set (20 * minute) (reportsCache live_state) ''ABC''
            \<lparr>code = ''ABC'', endTime = 0, isLive = False\<rparr>\<rparr>
   \<and> check_report False sample_server (env_at (2 * minute) (Inr []) False) (abc 60000) live_state =
       live_state
         \<lparr>handled := handled live_state @ [stats_event sample_server True (abc 60000) no_details],
          reportsCache := cache_Set (2 * minute) (reportsCache live_state) ''ABC''
            \<lparr>code = ''ABC'', endTime = 60000, isLive = True\<rparr>\<rparr>
   \<and> check_report False sample_server (env_at minute (Inr []) False) (abc 0) live_state = live_state"
proof -
  let ?cr = "\<lparr>code = ''ABC'', endTime = 0, isLive = True\<rparr>"
  have m: "(0::int) \<le> minute" "minute \<le> ttl" "0 \<le> 20 * minute" "20 * minute \<le> ttl"
    "0 \<le> 2 * minute" "2 * minute \<le> ttl"
    by (simp_all add: minute_def ttl_def)
  have g0: "cache_Get False (now_get (env_at minute (Inr []) False)) (reportsCache empty_state)
      (Code (abc 0)) = (Map.empty, None)"
    by (simp add: cache_Get_def empty_state_def)
  have g1: "cache_Get False (now_get (env_at (20 * minute) (Inr []) False)) (reportsCache live_state)
      (Code (abc 0)) = (reportsCache live_state, Some ?cr)"
    by (simp add: env_at_simps abc_simps live_state_Get m)
  have g2: "cache_Get False (now_get (env_at (2 * minute) (Inr []) False)) (reportsCache live_state)
      (Code (abc 60000)) = (reportsCache live_state, Some ?cr)"
    by (simp add: env_at_simps abc_simps live_state_Get m)
  have g3: "cache_Get False (now_get (env_at minute (Inr []) False)) (reportsCache live_state)
      (Code (abc 0)) = (reportsCache live_state, Some ?cr)"
    by (simp add: env_at_simps abc_simps live_state_Get m)
  have o: "\<not> isOutdated minute (abc 0)" "isOutdated (20 * minute) (abc 0)"
    "\<not> isOutdated (2 * minute) (abc 60000)"
    by (simp_all add: isOutdated_iff abc_simps minute_def)
  have e: "reportsCache empty_state = Map.empty" by (simp add: empty_state_def)
  have c0: "check_report False sample_server (env_at minute (Inr []) False) (abc 0) empty_state =
       empty_state
         \<lparr>handled := handled empty_state @ [stats_event sample_server True (abc 0) no_details],
          reportsCache := cache_Set minute Map.empty ''ABC'' ?cr\<rparr>"
    using check_report_table [OF g0, where d = no_details and server = sample_server] o
    by (simp add: env_at_simps abc_simps no_fights)
  have c1: "check_report False sample_server (env_at (20 * minute) (Inr []) False) (abc 0) live_state =
       live_state
         \<lparr>handled := handled live_state @ [stats_event sample_server False (abc 0) no_details],
          reportsCache := cache_Set (20 * minute) (reportsCache live_state) ''ABC''
            \<lparr>code = ''ABC'', endTime = 0, isLive = False\<rparr>\<rparr>"
    using check_report_table [OF g1, where d = no_details and server = sample_server and cr = ?cr] o
    by (simp add: env_at_simps abc_simps no_fights)
  have c2: "check_report False sample_server (env_at (2 * minute) (Inr []) False) (abc 60000) live_state =
       live_state
         \<lparr>handled := handled live_state @ [stats_event sample_server True (abc 60000) no_details],
          reportsCache := cache_Set (2 * minute) (reportsCache live_state) ''ABC''
            \<lparr>code = ''ABC'', endTime = 60000, isLive = True\<rparr>\<rparr>"
    using check_report_table [OF g2, where d = no_details and server = sample_server and cr = ?cr] o
    by (simp add: env_at_simps abc_simps no_fights)
  have c3: "check_report False sample_server (env_at minute (Inr []) False) (abc 0) live_state = live_state"
    using check_report_table [OF g3, where server = sample_server and cr = ?cr] o
    by (simp add: env_at_simps abc_simps)
  from g0 o c0 c1 c2 c3 show ?thesis by (simp add: env_at_simps abc_simps e)
qed

text \<open>
  The claim as stated fails where the fetch of the statistics fails, and where the
  context is done: the report ABC is not in the cache and not outdated, yet the cycle
  sends nothing, and with the failed fetch it writes nothing either.
\<close>

theorem check_report_fetch_failure:
  "cache_Get True minute (reportsCache empty_state) (Code (abc 0)) = (Map.empty, None)
   \<and> cache_Get False minute (reportsCache empty_state) (Code (abc 0)) = (Map.empty, None)
   \<and> \<not> isOutdated minute (abc 0)
   \<and> checkChanges True sample_server (Inr [abc 0])
         (\<lambda>i. env_at minute (Inl (LibraryError ''timeout'')) False) empty_state = empty_state
   \<and> checkChanges False sample_server (Inr [abc 0])
         (\<lambda>i. env_at minute (Inl (LibraryError ''timeout'')) False) empty_state = empty_state
   \<and> handled (checkChanges True sample_server (Inr [abc 0])
         (\<lambda>i. env_at minute (Inr []) True) empty_state) = []
   \<and> handled (checkChanges False sample_server (Inr [abc 0])
         (\<lambda>i. env_at minute (Inr []) True) empty_state) = []"
proof -
  have d: "deleteNonRaid [abc 0] = [abc 0]"
    by (simp add: deleteNonRaid_def DeleteFunc_def abc_def sample_report_def mythic_only_def)
  have o: "\<not> isOutdated minute (abc 0)"
    by (simp add: isOutdated_iff abc_simps minute_def)
  show ?thesis
    using o
    by (simp add: checkChanges_def d iterations_of_def check_report_def cache_Get_def
        empty_state_def env_at_simps abc_simps fetch_and_send_def TopDeathsForReport_def
        sendUpdate_def)
qed

lemma cache_Get_other:
  assumes "cache_Get touch now c k' = (c1, item)" "k \<noteq> k'"
  shows "c1 k = c k"
  using assms by (auto simp: cache_Get_def split: option.splits if_splits)


lemma fetch_and_send_handled:
  "handled (fetch_and_send server e r live c1 s) =
     handled s @ (case TopDeathsForReport (bossFights e) of
                    Inl err \<Rightarrow> []
                  | Inr d \<Rightarrow> if ctx_done e then [] else [stats_event server live r d])"
  by (simp add: fetch_and_send_def sendUpdate_def split: sum.splits)

lemma fetch_and_send_cache:
  "reportsCache (fetch_and_send server e r live c1 s) =
     (case TopDeathsForReport (bossFights e) of
        Inl err \<Rightarrow> c1
      | Inr d \<Rightarrow> cache_Set (now_set e) c1 (Code r)
                  \<lparr>code = Code r, endTime = EndTime r, isLive = live\<rparr>)"
  by (simp add: fetch_and_send_def split: sum.splits)

lemma stats_event_simps:
  "ReportId (stats_event server live r d) = Code r" "Live (stats_event server live r d) = live"
  by (simp_all add: stats_event_def)

lemma fetch_and_send_effect:
  "\<exists>new. handled (fetch_and_send server e r live c1 s) = handled s @ new
     \<and> list_all (\<lambda>ev. ReportId ev = Code r \<and> Live ev = live) new
     \<and> (\<forall>k. k \<noteq> Code r \<longrightarrow> reportsCache (fetch_and_send server e r live c1 s) k = c1 k)
     \<and> (reportsCache (fetch_and_send server e r live c1 s) (Code r) = c1 (Code r)
        \<or> (\<exists>x. reportsCache (fetch_and_send server e r live c1 s) (Code r) =
              Some \<lparr>item_value = \<lparr>code = Code r, endTime = EndTime r, isLive = live\<rparr>,
                    item_expires = x\<rparr>))"
proof -
  let ?new = "case TopDeathsForReport (bossFights e) of
                 Inl err \<Rightarrow> []
               | Inr d \<Rightarrow> if ctx_done e then [] else [stats_event server live r d]"
  have 1: "handled (fetch_and_send server e r live c1 s) = handled s @ ?new"
    by (rule fetch_and_send_handled)
  have 2: "list_all (\<lambda>ev. ReportId ev = Code r \<and> Live ev = live) ?new"
    by (simp add: stats_event_simps split: sum.splits)
  have 3: "\<forall>k. k \<noteq> Code r \<longrightarrow> reportsCache (fetch_and_send server e r live c1 s) k = c1 k"
    by (simp add: fetch_and_send_cache cache_Set_def split: sum.splits)
  have 4: "reportsCache (fetch_and_send server e r live c1 s) (Code r) = c1 (Code r)
        \<or> (\<exists>x. reportsCache (fetch_and_send server e r live c1 s) (Code r) =
              Some \<lparr>item_value = \<lparr>code = Code r, endTime = EndTime r, isLive = live\<rparr>,
                    item_expires = x\<rparr>)"
    by (simp add: fetch_and_send_cache cache_Set_def split: sum.splits)
  from 1 2 3 4 show ?thesis by blast
qed

lemma check_report_other:
  assumes "Code r \<noteq> k"
  shows "reportsCache (check_report touch server e r s) k = reportsCache s k
     \<and> (\<exists>new. handled (check_report touch server e r s) = handled s @ new
           \<and> list_all (\<lambda>ev. ReportId ev = Code r) new)"
proof -
  obtain c1 item where g: "cache_Get touch (now_get e) (reportsCache s) (Code r) = (c1, item)"
    by (cases "cache_Get touch (now_get e) (reportsCache s) (Code r)")
  have ne: "k \<noteq> Code r" using assms by (rule not_sym)
  have c1: "c1 k = reportsCache s k" by (rule cache_Get_other [OF g ne])
  let ?P = "\<lambda>s'. reportsCache s' k = reportsCache s k
     \<and> (\<exists>new. handled s' = handled s @ new \<and> list_all (\<lambda>ev. ReportId ev = Code r) new)"
  have f: "?P (fetch_and_send server e r live c1 s)" for live
  proof -
    from fetch_and_send_effect [of server e r live c1 s] obtain new where
      h: "handled (fetch_and_send server e r live c1 s) = handled s @ new"
      and l: "list_all (\<lambda>ev. ReportId ev = Code r \<and> Live ev = live) new"
      and o: "\<forall>k. k \<noteq> Code r \<longrightarrow> reportsCache (fetch_and_send server e r live c1 s) k = c1 k"
      by blast
    have "list_all (\<lambda>ev. ReportId ev = Code r) new" using l by (simp add: list_all_iff)
    moreover have "reportsCache (fetch_and_send server e r live c1 s) k = c1 k"
      by (rule o [rule_format, OF ne])
    then have "reportsCache (fetch_and_send server e r live c1 s) k = reportsCache s k"
      using c1 by simp
    moreover note this
    ultimately show ?thesis using h by blast
  qed
  have n: "?P (s\<lparr>reportsCache := c1\<rparr>)" using c1 by simp
  show ?thesis
  proof (cases item)
    case None
    show ?thesis
    proof (cases "isOutdated (now_since e) r")
      case True
      then have "check_report touch server e r s = s\<lparr>reportsCache := c1\<rparr>"
        using g None by (simp add: check_report_def Let_def)
      then show ?thesis using n by simp
    next
      case False
      then have "check_report touch server e r s = fetch_and_send server e r True c1 s"
        using g None by (simp add: check_report_def Let_def)
      then show ?thesis using f [of True] by simp
    qed
  next
    case (Some v)
    show ?thesis
    proof (cases "endTime v \<noteq> EndTime r")
      case True
      then have "check_report touch server e r s =
          fetch_and_send server e r (\<not> isOutdated (now_since e) r) c1 s"
        using g Some by (simp add: check_report_def Let_def)
      then show ?thesis using f [of "\<not> isOutdated (now_since e) r"] by simp
    next
      case same: False
      show ?thesis
      proof (cases "isLive v \<and> isOutdated (now_since e) r")
        case True
        then have "check_report touch server e r s = fetch_and_send server e r False c1 s"
          using g Some same by (simp add: check_report_def Let_def)
        then show ?thesis using f [of False] by simp
      next
        case False
        have "check_report touch server e r s = s\<lparr>reportsCache := c1\<rparr>"
          using False g Some same by (auto simp: check_report_def Let_def)
        then show ?thesis using n by simp
      qed
    qed
  qed
qed





lemma check_report_branch:
  "\<exists>c1. (\<forall>d. check_report touch server (e\<lparr>ctx_done := d\<rparr>) r s = s\<lparr>reportsCache := c1\<rparr>)
     \<or> (\<exists>live. \<forall>d. check_report touch server (e\<lparr>ctx_done := d\<rparr>) r s =
            fetch_and_send server (e\<lparr>ctx_done := d\<rparr>) r live c1 s)"
proof -
  obtain c1 item where g: "cache_Get touch (now_get e) (reportsCache s) (Code r) = (c1, item)"
    by (cases "cache_Get touch (now_get e) (reportsCache s) (Code r)")
  show ?thesis
  proof (cases item)
    case None
    show ?thesis
    proof (cases "isOutdated (now_since e) r")
      case True
      then have "\<forall>d. check_report touch server (e\<lparr>ctx_done := d\<rparr>) r s = s\<lparr>reportsCache := c1\<rparr>"
        using g None by (simp add: check_report_def Let_def)
      then show ?thesis by blast
    next
      case False
      then have "\<forall>d. check_report touch server (e\<lparr>ctx_done := d\<rparr>) r s =
          fetch_and_send server (e\<lparr>ctx_done := d\<rparr>) r True c1 s"
        using g None by (simp add: check_report_def Let_def)
      then show ?thesis by blast
    qed
  next
    case (Some v)
    show ?thesis
    proof (cases "endTime v \<noteq> EndTime r")
      case True
      then have "\<forall>d. check_report touch server (e\<lparr>ctx_done := d\<rparr>) r s =
          fetch_and_send server (e\<lparr>ctx_done := d\<rparr>) r (\<not> isOutdated (now_since e) r) c1 s"
        using g Some by (simp add: check_report_def Let_def)
      then show ?thesis by blast
    next
      case same: False
      show ?thesis
      proof (cases "isLive v \<and> isOutdated (now_since e) r")
        case True
        then have "\<forall>d. check_report touch server (e\<lparr>ctx_done := d\<rparr>) r s =
            fetch_and_send server (e\<lparr>ctx_done := d\<rparr>) r False c1 s"
          using g Some same by (simp add: check_report_def Let_def)
        then show ?thesis by blast
      next
        case False
        have "\<forall>d. check_report touch server (e\<lparr>ctx_done := d\<rparr>) r s = s\<lparr>reportsCache := c1\<rparr>"
          using False g Some same by (auto simp: check_report_def Let_def)
        then show ?thesis by blast
      qed
    qed
  qed
qed




lemma check_report_handled:
  "\<exists>new. handled (check_report touch server e r s) = handled s @ new
     \<and> list_all (\<lambda>ev. ReportId ev = Code r) new"
proof -
  have e: "e\<lparr>ctx_done := ctx_done e\<rparr> = e" by simp
  from check_report_branch [of touch server e r s] obtain c1 where
    "(\<forall>d. check_report touch server (e\<lparr>ctx_done := d\<rparr>) r s = s\<lparr>reportsCache := c1\<rparr>)
     \<or> (\<exists>live. \<forall>d. check_report touch server (e\<lparr>ctx_done := d\<rparr>) r s =
            fetch_and_send server (e\<lparr>ctx_done := d\<rparr>) r live c1 s)"
    by blast
  then show ?thesis
  proof
    assume "\<forall>d. check_report touch server (e\<lparr>ctx_done := d\<rparr>) r s = s\<lparr>reportsCache := c1\<rparr>"
    then have "check_report touch server e r s = s\<lparr>reportsCache := c1\<rparr>"
      using e by metis
    then show ?thesis by simp
  next
    assume "\<exists>live. \<forall>d. check_report touch server (e\<lparr>ctx_done := d\<rparr>) r s =
            fetch_and_send server (e\<lparr>ctx_done := d\<rparr>) r live c1 s"
    then obtain live where "check_report touch server e r s = fetch_and_send server e r live c1 s"
      using e by metis
    moreover obtain new where "handled (fetch_and_send server e r live c1 s) = handled s @ new"
      "list_all (\<lambda>ev. ReportId ev = Code r \<and> Live ev = live) new"
      using fetch_and_send_effect [of server e r live c1 s] by blast
    ultimately have "handled (check_report touch server e r s) = handled s @ new"
      "list_all (\<lambda>ev. ReportId ev = Code r) new"
      by (simp_all add: list_all_iff)
    then show ?thesis by blast
  qed
qed

lemma run_handled:
  "\<exists>new. handled (run touch server its s) = handled s @ new
     \<and> list_all (\<lambda>ev. \<exists>r\<in>set (map fst its). ReportId ev = Code r) new"
proof (induction its arbitrary: s)
  case Nil
  show ?case by simp
next
  case (Cons p its)
  obtain r e where p: "p = (r, e)" by (cases p)
  from check_report_handled [of touch server e r s] obtain new1 where
    1: "handled (check_report touch server e r s) = handled s @ new1"
    "list_all (\<lambda>ev. ReportId ev = Code r) new1"
    by blast
  from Cons.IH [of "check_report touch server e r s"] obtain new2 where
    2: "handled (run touch server its (check_report touch server e r s)) =
        handled (check_report touch server e r s) @ new2"
    "list_all (\<lambda>ev. \<exists>r\<in>set (map fst its). ReportId ev = Code r) new2"
    by blast
  have "handled (run touch server (p # its) s) = handled s @ (new1 @ new2)"
    using p 1 2 by simp
  moreover have "list_all (\<lambda>ev. \<exists>r\<in>set (map fst (p # its)). ReportId ev = Code r) (new1 @ new2)"
    using p 1(2) 2(2) by (auto simp: list_all_iff)
  ultimately show ?case by blast
qed

lemma run_cache_other:
  assumes "\<forall>r\<in>set (map fst its). Code r \<noteq> k"
  shows "reportsCache (run touch server its s) k = reportsCache s k"
  using assms
proof (induction its arbitrary: s)
  case Nil
  show ?case by simp
next
  case (Cons p its)
  obtain r e where p: "p = (r, e)" by (cases p)
  have "Code r \<noteq> k" using Cons.prems p by simp
  then have "reportsCache (check_report touch server e r s) k = reportsCache s k"
    using check_report_other by blast
  moreover have "reportsCache (run touch server its (check_report touch server e r s)) k =
      reportsCache (check_report touch server e r s) k"
    using Cons.IH Cons.prems by simp
  ultimately show ?case using p by simp
qed

lemma map_fst_iterations_of: "map fst (iterations_of envs rs) = rs"
  by (simp add: iterations_of_def comp_def map_nth)

text \<open>
  Claim C7. \<^verbatim>\<open>deleteNonRaid\<close> keeps exactly the reports whose zone has a difficulty
  named "Mythic" whose size list is the single size 20, in their order, and drops all
  others; filtering a filtered list changes nothing. \<^verbatim>\<open>checkChanges\<close> runs its loop
  on the filtered list only: every update it sends is for a report of the poll that
  passes the filter, and it leaves the cache entry of every other report code as it was.
\<close>

theorem deleteNonRaid_keeps_mythic20:
  "deleteNonRaid rs = filter mythic20 rs \<and> deleteNonRaid (deleteNonRaid rs) = deleteNonRaid rs
   \<and> checkChanges touch server (Inr rs) envs s =
       run touch server (iterations_of envs (filter mythic20 rs)) s
   \<and> (\<exists>new. handled (checkChanges touch server (Inr rs) envs s) = handled s @ new
         \<and> list_all (\<lambda>ev. \<exists>r\<in>set rs. mythic20 r \<and> ReportId ev = Code r) new)
   \<and> ((\<forall>r\<in>set rs. mythic20 r \<longrightarrow> Code r \<noteq> k) \<longrightarrow>
        reportsCache (checkChanges touch server (Inr rs) envs s) k = reportsCache s k)"
proof -
  let ?its = "iterations_of envs (filter mythic20 rs)"
  have c: "checkChanges touch server (Inr rs) envs s = run touch server ?its s"
    by (simp add: checkChanges_def deleteNonRaid_filter)
  have m: "map fst ?its = filter mythic20 rs" by (rule map_fst_iterations_of)
  from run_handled [of touch server ?its s] obtain new where
    h: "handled (run touch server ?its s) = handled s @ new"
    and l: "list_all (\<lambda>ev. \<exists>r\<in>set (map fst ?its). ReportId ev = Code r) new"
    by blast
  have "list_all (\<lambda>ev. \<exists>r\<in>set rs. mythic20 r \<and> ReportId ev = Code r) new"
    using l unfolding m by (auto simp: list_all_iff)
  then have 4: "\<exists>new. handled (checkChanges touch server (Inr rs) envs s) = handled s @ new
         \<and> list_all (\<lambda>ev. \<exists>r\<in>set rs. mythic20 r \<and> ReportId ev = Code r) new"
    using h c by auto
  have 5: "(\<forall>r\<in>set rs. mythic20 r \<longrightarrow> Code r \<noteq> k) \<longrightarrow>
        reportsCache (checkChanges touch server (Inr rs) envs s) k = reportsCache s k"
  proof
    assume "\<forall>r\<in>set rs. mythic20 r \<longrightarrow> Code r \<noteq> k"
    then have "\<forall>r\<in>set (map fst ?its). Code r \<noteq> k" unfolding m by simp
    then show "reportsCache (checkChanges touch server (Inr rs) envs s) k = reportsCache s k"
      unfolding c by (rule run_cache_other)
  qed
  from c 4 5 show ?thesis by (simp add: deleteNonRaid_filter)
qed

theorem deleteNonRaid_keeps_mythic20_witness:
  "deleteNonRaid [sample_report ''A'' 1 flex_only, sample_report ''B'' 2 mythic_only,
                  sample_report ''C'' 3 []]
     = [sample_report ''B'' 2 mythic_only]
   \<and> deleteNonRaid [sample_report ''B'' 2 mythic_only] = [sample_report ''B'' 2 mythic_only]
   \<and> \<not> isOutdated minute (sample_report ''A'' 1 flex_only)
   \<and> checkChanges False sample_server (Inr [sample_report ''A'' 1 flex_only, sample_report ''C'' 3 []])
         (\<lambda>i. env_at minute (Inr []) False) empty_state = empty_state
   \<and> handled (checkChanges False sample_server
         (Inr [sample_report ''A'' 1 flex_only, sample_report ''B'' 2 mythic_only,
               sample_report ''C'' 3 []])
         (\<lambda>i. env_at minute (Inr []) False) empty_state) =
       [stats_event sample_server True (sample_report ''B'' 2 mythic_only) no_details]"
proof -
  let ?rs = "[sample_report ''A'' 1 flex_only, sample_report ''B'' 2 mythic_only,
          sample_report ''C'' 3 []]"
  have f: "filter mythic20 ?rs = [sample_report ''B'' 2 mythic_only]"
    "filter mythic20 [sample_report ''B'' 2 mythic_only] = [sample_report ''B'' 2 mythic_only]"
    "filter mythic20 [sample_report ''A'' 1 flex_only, sample_report ''C'' 3 []] = []"
    by (simp_all add: mythic20_def sample_report_def mythic_only_def flex_only_def)
  have o: "\<not> isOutdated minute (sample_report ''A'' 1 flex_only)"
    "\<not> isOutdated minute (sample_report ''B'' 2 mythic_only)"
    by (simp_all add: isOutdated_iff sample_report_def minute_def)
  have b: "Code (sample_report ''B'' 2 mythic_only) = ''B''"
    by (simp add: sample_report_def)
  have r: "run False sample_server
      (iterations_of (\<lambda>i. env_at minute (Inr []) False) [sample_report ''B'' 2 mythic_only])
      empty_state =
    empty_state\<lparr>handled := [stats_event sample_server True (sample_report ''B'' 2 mythic_only) no_details],
                  reportsCache := cache_Set minute Map.empty ''B''
                    \<lparr>code = ''B'', endTime = EndTime (sample_report ''B'' 2 mythic_only),
                     isLive = True\<rparr>\<rparr>"
    using o(2)
    by (simp add: iterations_of_def check_report_def cache_Get_def empty_state_def env_at_simps
        b fetch_and_send_def no_fights sendUpdate_def)
  let ?envs = "\<lambda>i::nat. env_at minute (Inr []) False"
  note T1 = deleteNonRaid_keeps_mythic20 [of ?rs False sample_server ?envs empty_state, unfolded f]
  note T2 = deleteNonRaid_keeps_mythic20 [of "[sample_report ''B'' 2 mythic_only]", unfolded f]
  note T3 = deleteNonRaid_keeps_mythic20
    [of "[sample_report ''A'' 1 flex_only, sample_report ''C'' 3 []]" False sample_server ?envs
      empty_state, unfolded f]
  have 1: "deleteNonRaid ?rs = [sample_report ''B'' 2 mythic_only]" using T1 by blast
  have 2: "deleteNonRaid [sample_report ''B'' 2 mythic_only] = [sample_report ''B'' 2 mythic_only]"
    using T2 by blast
  have "checkChanges False sample_server
      (Inr [sample_report ''A'' 1 flex_only, sample_report ''C'' 3 []]) ?envs empty_state =
      run False sample_server (iterations_of ?envs []) empty_state"
    using T3 by blast
  then have 3: "checkChanges False sample_server
      (Inr [sample_report ''A'' 1 flex_only, sample_report ''C'' 3 []]) ?envs empty_state =
      empty_state"
    by (simp add: iterations_of_def)
  have "checkChanges False sample_server (Inr ?rs) ?envs empty_state =
      run False sample_server (iterations_of ?envs [sample_report ''B'' 2 mythic_only]) empty_state"
    using T1 by blast
  then have 4: "handled (checkChanges False sample_server (Inr ?rs) ?envs empty_state) =
       [stats_event sample_server True (sample_report ''B'' 2 mythic_only) no_details]"
    by (simp add: r)
  from 1 2 3 4 o(1) show ?thesis by blast
qed


section \<open>Properties of the watch supervisor\<close>

lemma distinct_snd_unique:
  assumes "distinct (map snd xs)" "(a, c) \<in> set xs" "(b, c) \<in> set xs"
  shows "a = b"
proof -
  have "inj_on snd (set xs)" using assms(1) by (simp add: distinct_map)
  moreover have "snd (a, c) = snd (b, c)" by simp
  ultimately have "(a, c) = (b, c)" using assms(2,3) by (rule inj_onD)
  then show ?thesis by simp
qed

lemma New_ok: "supervisor_ok New"
  by (simp add: supervisor_ok_def New_def)

lemma Watch_loaded:
  assumes "watched w (ServerId server) = Some c"
  shows "Watch server w = w\<lparr>contexts := contexts w + 1\<rparr>"
  using assms by (simp add: Watch_def WithCancel_def LoadOrStore_def Let_def)

lemma Watch_stored:
  assumes "watched w (ServerId server) = None"
  shows "Watch server w =
     w\<lparr>contexts := contexts w + 1,
       watched := (watched w)(ServerId server \<mapsto> contexts w),
       started := started w @ [(server, contexts w)]\<rparr>"
  using assms by (simp add: Watch_def WithCancel_def LoadOrStore_def go_watchLoop_def Let_def)

lemma delete_absent:
  assumes "watched w g = None"
  shows "w\<lparr>watched := (watched w)(g := None)\<rparr> = w"
proof -
  have "(watched w)(g := None) = watched w" using assms by (simp add: fun_upd_idem_iff)
  then show ?thesis by simp
qed

lemma Unwatch_unknown:
  assumes "watched w g = None"
  shows "Unwatch g w = w"
  using assms delete_absent by (simp add: Unwatch_def LoadAndDelete_def)

lemma Unwatch_known:
  assumes "watched w g = Some c"
  shows "Unwatch g w = w\<lparr>watched := (watched w)(g := None), cancelled := cancelled w @ [c]\<rparr>"
  using assms by (simp add: Unwatch_def LoadAndDelete_def call_cancel_def)

lemma Watch_ok:
  assumes ok: "supervisor_ok w"
  shows "supervisor_ok (Watch server w)"
proof (cases "watched w (ServerId server)")
  case (Some c)
  have "supervisor_ok (w\<lparr>contexts := contexts w + 1\<rparr>)"
    using ok unfolding supervisor_ok_def by (simp add: less_SucI)
  then show ?thesis using Watch_loaded [OF Some] by simp
next
  case None
  let ?g = "ServerId server"
  let ?n = "contexts w"
  have s1: "\<forall>p\<in>set (started w). snd p < ?n" and s2: "\<forall>c\<in>set (cancelled w). c < ?n"
    and s3: "distinct (map snd (started w))"
    and s4: "\<forall>g c. watched w g = Some c \<longrightarrow>
            c \<notin> set (cancelled w) \<and> (\<exists>server. ServerId server = g \<and> (server, c) \<in> set (started w))"
    and s5: "\<forall>p\<in>set (started w). snd p \<notin> set (cancelled w) \<longrightarrow>
            watched w (ServerId (fst p)) = Some (snd p)"
    using ok unfolding supervisor_ok_def by blast+
  let ?w = "w\<lparr>contexts := ?n + 1, watched := (watched w)(?g \<mapsto> ?n),
       started := started w @ [(server, ?n)]\<rparr>"
  have fresh: "?n \<notin> snd ` set (started w)" using s1 by auto
  have nc: "?n \<notin> set (cancelled w)" using s2 by auto
  have 1: "\<forall>p\<in>set (started ?w). snd p < contexts ?w" using s1 by (auto simp: less_SucI)
  have 2: "\<forall>c\<in>set (cancelled ?w). c < contexts ?w" using s2 by (auto simp: less_SucI)
  have 3: "distinct (map snd (started ?w))" using s3 fresh by simp
  have 4: "\<forall>g c. watched ?w g = Some c \<longrightarrow>
            c \<notin> set (cancelled ?w) \<and> (\<exists>server. ServerId server = g \<and> (server, c) \<in> set (started ?w))"
  proof (intro allI impI)
    fix g c assume a: "watched ?w g = Some c"
    show "c \<notin> set (cancelled ?w) \<and> (\<exists>server. ServerId server = g \<and> (server, c) \<in> set (started ?w))"
    proof (cases "g = ?g")
      case True
      then have "c = ?n" using a by simp
      then show ?thesis using True nc by auto
    next
      case False
      then have "watched w g = Some c" using a by simp
      then show ?thesis using s4 by auto
    qed
  qed
  have 5: "\<forall>p\<in>set (started ?w). snd p \<notin> set (cancelled ?w) \<longrightarrow>
            watched ?w (ServerId (fst p)) = Some (snd p)"
  proof (intro ballI impI)
    fix p assume p: "p \<in> set (started ?w)" and n: "snd p \<notin> set (cancelled ?w)"
    show "watched ?w (ServerId (fst p)) = Some (snd p)"
    proof (cases "p = (server, ?n)")
      case True
      then show ?thesis by simp
    next
      case False
      then have old: "p \<in> set (started w)" using p by simp
      then have w: "watched w (ServerId (fst p)) = Some (snd p)" using s5 n by simp
      then have "ServerId (fst p) \<noteq> ?g" using None by auto
      then show ?thesis using w by simp
    qed
  qed
  have "supervisor_ok ?w" unfolding supervisor_ok_def using 1 2 3 4 5 by blast
  then show ?thesis using Watch_stored [OF None] by simp
qed

lemma Unwatch_ok:
  assumes ok: "supervisor_ok w"
  shows "supervisor_ok (Unwatch g w)"
proof (cases "watched w g")
  case None
  then show ?thesis using ok Unwatch_unknown by simp
next
  case (Some c)
  have s1: "\<forall>p\<in>set (started w). snd p < contexts w" and s2: "\<forall>c\<in>set (cancelled w). c < contexts w"
    and s3: "distinct (map snd (started w))"
    and s4: "\<forall>g c. watched w g = Some c \<longrightarrow>
            c \<notin> set (cancelled w) \<and> (\<exists>server. ServerId server = g \<and> (server, c) \<in> set (started w))"
    and s5: "\<forall>p\<in>set (started w). snd p \<notin> set (cancelled w) \<longrightarrow>
            watched w (ServerId (fst p)) = Some (snd p)"
    using ok unfolding supervisor_ok_def by blast+
  let ?w = "w\<lparr>watched := (watched w)(g := None), cancelled := cancelled w @ [c]\<rparr>"
  obtain sg where sg: "ServerId sg = g" "(sg, c) \<in> set (started w)" using s4 Some by blast
  have cn: "c < contexts w" using s1 sg(2) by auto
  have 1: "\<forall>p\<in>set (started ?w). snd p < contexts ?w" using s1 by simp
  have 2: "\<forall>c\<in>set (cancelled ?w). c < contexts ?w" using s2 cn by auto
  have 3: "distinct (map snd (started ?w))" using s3 by simp
  have uniq: "server = sg" if "(server, c) \<in> set (started w)" for server
    using s3 that sg(2) by (rule distinct_snd_unique)
  have 4: "\<forall>g' c'. watched ?w g' = Some c' \<longrightarrow>
            c' \<notin> set (cancelled ?w) \<and> (\<exists>server. ServerId server = g' \<and> (server, c') \<in> set (started ?w))"
  proof (intro allI impI)
    fix g' c' assume a: "watched ?w g' = Some c'"
    then have ne: "g' \<noteq> g" by (auto split: if_splits)
    then have old: "watched w g' = Some c'" using a by simp
    then obtain server where sv: "ServerId server = g'" "(server, c') \<in> set (started w)"
      and nc: "c' \<notin> set (cancelled w)"
      using s4 by blast
    have "c' \<noteq> c"
    proof
      assume "c' = c"
      then have "server = sg" using sv(2) uniq by simp
      then show False using sv(1) sg(1) ne by simp
    qed
    then show "c' \<notin> set (cancelled ?w) \<and> (\<exists>server. ServerId server = g' \<and> (server, c') \<in> set (started ?w))"
      using nc sv by auto
  qed
  have 5: "\<forall>p\<in>set (started ?w). snd p \<notin> set (cancelled ?w) \<longrightarrow>
            watched ?w (ServerId (fst p)) = Some (snd p)"
  proof (intro ballI impI)
    fix p assume p: "p \<in> set (started ?w)" and n: "snd p \<notin> set (cancelled ?w)"
    then have w: "watched w (ServerId (fst p)) = Some (snd p)" and ne: "snd p \<noteq> c"
      using s5 by auto
    have "ServerId (fst p) \<noteq> g" using w Some ne by auto
    then show "watched ?w (ServerId (fst p)) = Some (snd p)" using w by simp
  qed
  have "supervisor_ok ?w" unfolding supervisor_ok_def using 1 2 3 4 5 by blast
  then show ?thesis using Unwatch_known [OF Some] by simp
qed

lemma calls_ok: "supervisor_ok w \<Longrightarrow> supervisor_ok (calls cs w)"
proof (induction cs arbitrary: w)
  case Nil
  then show ?case by simp
next
  case (Cons c cs)
  then show ?case by (cases c) (simp_all add: Watch_ok Unwatch_ok)
qed


lemma active_contexts [simp]: "active (w\<lparr>contexts := n\<rparr>) g = active w g"
  by (simp add: active_def)



























end
